theory Spec2Isabelle
  imports Complex_Main "HOL-Library.Product_Lexorder"
begin

section \<open>Python values\<close>

text \<open>
  A Python \<open>str\<close> is a sequence of Unicode code points; \<open>len\<close>, iteration,
  \<open>ord\<close> and the regular expressions of \<open>merge_candidates.py\<close> all work on code
  points. A string is therefore a list of code points, and a literal of the source is
  written \<open>ustr ''page''\<close>.
\<close>

type_synonym pystr = "nat list"

definition ustr :: "string \<Rightarrow> pystr" where
  "ustr s = map of_char s"

text \<open>
  The character classes of the Python runtime (\<open>str.isspace\<close>, \<open>str.isalpha\<close>,
  \<open>str.isdigit\<close> and the decimal value of a digit, which \<open>int\<close> and the regular
  expression class \<open>\d\<close> use) come from the Unicode database, which is no part of the
  repository. On ASCII they are written out below; beyond ASCII they are the tables of
  this record, a parameter of every function that needs them.
\<close>

record ucd =
  u_space :: "nat \<Rightarrow> bool"
  u_alpha :: "nat \<Rightarrow> bool"
  u_digit :: "nat \<Rightarrow> bool"
  u_decimal :: "nat \<Rightarrow> nat option"

definition isspace :: "ucd \<Rightarrow> nat \<Rightarrow> bool" where
  "isspace U c = (if c < 128 then (9 \<le> c \<and> c \<le> 13) \<or> (28 \<le> c \<and> c \<le> 32) else u_space U c)"

definition isalpha :: "ucd \<Rightarrow> nat \<Rightarrow> bool" where
  "isalpha U c = (if c < 128 then (65 \<le> c \<and> c \<le> 90) \<or> (97 \<le> c \<and> c \<le> 122) else u_alpha U c)"

definition decimal :: "ucd \<Rightarrow> nat \<Rightarrow> nat option" where
  "decimal U c = (if c < 128 then (if 48 \<le> c \<and> c \<le> 57 then Some (c - 48) else None)
                  else u_decimal U c)"

definition isdigit :: "ucd \<Rightarrow> nat \<Rightarrow> bool" where
  "isdigit U c = (if c < 128 then 48 \<le> c \<and> c \<le> 57 else u_digit U c)"

text \<open>
  A float of the input is a finite value, an infinity or a NaN (\<open>json.loads\<close> accepts
  all of them). The functions below only test a float for zero and truncate it, so a
  finite float is kept as the rational it denotes.
\<close>

datatype pyfloat = Finite rat | PosInf | NegInf | NaN

datatype json =
    JNull
  | JBool bool
  | JInt int
  | JFloat pyfloat
  | JStr pystr
  | JList "json list"
  | JObj "(pystr \<times> json) list"

text \<open>A dict is an association list; the first binding of a key is its value.\<close>

datatype py_error = TypeError | ValueError | AttributeError | OverflowError | KeyError

fun truthy :: "json \<Rightarrow> bool" where
  "truthy JNull = False"
| "truthy (JBool b) = b"
| "truthy (JInt n) = (n \<noteq> 0)"
| "truthy (JFloat f) = (f \<noteq> Finite 0)"
| "truthy (JStr s) = (s \<noteq> [])"
| "truthy (JList xs) = (xs \<noteq> [])"
| "truthy (JObj d) = (d \<noteq> [])"

definition py_or :: "json \<Rightarrow> json \<Rightarrow> json" where
  "py_or a b = (if truthy a then a else b)"

definition dict_get :: "(pystr \<times> json) list \<Rightarrow> pystr \<Rightarrow> json" where
  "dict_get d k = (case map_of d k of None \<Rightarrow> JNull | Some v \<Rightarrow> v)"

definition dict_get_default :: "(pystr \<times> json) list \<Rightarrow> pystr \<Rightarrow> json \<Rightarrow> json" where
  "dict_get_default d k dflt = (case map_of d k of None \<Rightarrow> dflt | Some v \<Rightarrow> v)"

definition has_key :: "(pystr \<times> json) list \<Rightarrow> pystr \<Rightarrow> bool" where
  "has_key d k = (case map_of d k of None \<Rightarrow> False | Some v \<Rightarrow> True)"

text \<open>The receiver of \<open>.get\<close>: anything but a dict has no such attribute.\<close>

definition as_dict :: "json \<Rightarrow> py_error + (pystr \<times> json) list" where
  "as_dict v = (case v of JObj d \<Rightarrow> Inr d | _ \<Rightarrow> Inl AttributeError)"

definition bind_res :: "py_error + 'a \<Rightarrow> ('a \<Rightarrow> py_error + 'b) \<Rightarrow> py_error + 'b" where
  "bind_res r f = (case r of Inl e \<Rightarrow> Inl e | Inr x \<Rightarrow> f x)"

subsection \<open>\<open>str.strip\<close>, \<open>str.lstrip('-')\<close>, \<open>str.isdigit\<close>, \<open>str\<close> and \<open>int\<close>\<close>

definition lstrip :: "ucd \<Rightarrow> pystr \<Rightarrow> pystr" where
  "lstrip U s = dropWhile (isspace U) s"

definition rstrip :: "ucd \<Rightarrow> pystr \<Rightarrow> pystr" where
  "rstrip U s = rev (dropWhile (isspace U) (rev s))"

definition strip :: "ucd \<Rightarrow> pystr \<Rightarrow> pystr" where
  "strip U s = rstrip U (lstrip U s)"

definition lstrip_minus :: "pystr \<Rightarrow> pystr" where
  "lstrip_minus s = dropWhile (\<lambda>c. c = 45) s"

definition str_isdigit :: "ucd \<Rightarrow> pystr \<Rightarrow> bool" where
  "str_isdigit U s = (s \<noteq> [] \<and> list_all (isdigit U) s)"

function str_of_nat :: "nat \<Rightarrow> pystr" where
  "str_of_nat n = (if n < 10 then [48 + n] else str_of_nat (n div 10) @ [48 + n mod 10])"
  by pat_completeness auto
termination
  by (relation "measure id") auto

declare str_of_nat.simps [simp del]

definition str_of_int :: "int \<Rightarrow> pystr" where
  "str_of_int i = (if i < 0 then 45 # str_of_nat (nat (- i)) else str_of_nat (nat i))"

text \<open>
  \<open>int(s)\<close> on a string: surrounding whitespace is dropped, one sign is allowed, and the
  rest is a non-empty run of decimal digits in which single underscores may separate
  digits. \<open>None\<close> is the \<open>ValueError\<close>. The whitespace that \<open>int\<close> drops is the
  ASCII characters tab to carriage return and the space, and the whitespace beyond ASCII;
  the separators U+001C to U+001F, which \<open>str.isspace\<close> and \<open>str.strip\<close> count as
  whitespace, stay and make the conversion fail. (The length limit that recent
  interpreters put on such conversions is not modelled.)
\<close>

definition int_space :: "ucd \<Rightarrow> nat \<Rightarrow> bool" where
  "int_space U c = (if c < 128 then (9 \<le> c \<and> c \<le> 13) \<or> c = 32 else u_space U c)"

fun parse_digits :: "ucd \<Rightarrow> pystr \<Rightarrow> int \<Rightarrow> bool \<Rightarrow> int option" where
  "parse_digits U [] acc prev = (if prev then Some acc else None)"
| "parse_digits U (c # cs) acc prev =
     (if c = 95 then (if prev then parse_digits U cs acc False else None)
      else (case decimal U c of
              None \<Rightarrow> None
            | Some d \<Rightarrow> parse_digits U cs (10 * acc + int d) True))"

definition int_of_str :: "ucd \<Rightarrow> pystr \<Rightarrow> int option" where
  "int_of_str U s =
     (case rev (dropWhile (int_space U) (rev (dropWhile (int_space U) s))) of
        [] \<Rightarrow> None
      | c # r \<Rightarrow>
          if c = 45 then map_option uminus (parse_digits U r 0 False)
          else if c = 43 then parse_digits U r 0 False
          else parse_digits U (c # r) 0 False)"

definition trunc_rat :: "rat \<Rightarrow> int" where
  "trunc_rat r = (if r < 0 then - \<lfloor>- r\<rfloor> else \<lfloor>r\<rfloor>)"

fun py_int :: "ucd \<Rightarrow> json \<Rightarrow> py_error + int" where
  "py_int U JNull = Inl TypeError"
| "py_int U (JBool b) = Inr (if b then 1 else 0)"
| "py_int U (JInt n) = Inr n"
| "py_int U (JFloat (Finite r)) = Inr (trunc_rat r)"
| "py_int U (JFloat NaN) = Inl ValueError"
| "py_int U (JFloat PosInf) = Inl OverflowError"
| "py_int U (JFloat NegInf) = Inl OverflowError"
| "py_int U (JStr s) = (case int_of_str U s of None \<Rightarrow> Inl ValueError | Some n \<Rightarrow> Inr n)"
| "py_int U (JList xs) = Inl TypeError"
| "py_int U (JObj d) = Inl TypeError"

section \<open>Record Normalizer: \<open>normalize_row\<close>\<close>

text \<open>
  The dict that \<open>normalize_row\<close> returns always has the same ten keys, so it is a
  record; \<open>row_of_token\<close> is that dict again, for feeding a token back in.
\<close>

record word_token =
  w_page :: int
  w_text :: pystr
  w_conf :: "int option"
  w_left :: int
  w_top :: int
  w_width :: int
  w_height :: int
  w_block_num :: int
  w_par_num :: int
  w_line_num :: int

text \<open>
  \<open>int(conf) if conf is not None and str(conf).lstrip('-').isdigit() else None\<close>, inside
  \<open>try\<close>/\<open>except\<close>. Only an \<open>int\<close> or a \<open>str\<close> can pass the digit test: the
  \<open>str\<close> of a bool, float, list or dict has a character that is neither \<open>-\<close> nor a
  digit. A string that passes the test and that \<open>int\<close> rejects lands in the
  \<open>except\<close> branch.
\<close>

fun conf_of :: "ucd \<Rightarrow> json \<Rightarrow> int option" where
  "conf_of U (JInt n) = (if str_isdigit U (lstrip_minus (str_of_int n)) then Some n else None)"
| "conf_of U (JStr s) = (if str_isdigit U (lstrip_minus s) then int_of_str U s else None)"
| "conf_of U v = None"

definition text_of :: "ucd \<Rightarrow> (pystr \<times> json) list \<Rightarrow> py_error + pystr" where
  "text_of U obj =
     (case py_or (py_or (dict_get obj (ustr ''text'')) (dict_get obj (ustr ''ocr_text''))) (JStr []) of
        JStr s \<Rightarrow> Inr (strip U s)
      | _ \<Rightarrow> Inl AttributeError)"

text \<open>\<open>int(obj.get(k) or 0)\<close>\<close>

definition int_or0 :: "ucd \<Rightarrow> (pystr \<times> json) list \<Rightarrow> pystr \<Rightarrow> py_error + int" where
  "int_or0 U obj k = py_int U (py_or (dict_get obj k) (JInt 0))"

text \<open>\<open>int(bbox.get(k) or bbox.get(k') or obj.get(k, 0) or 0)\<close>\<close>

definition bbox_coord ::
  "ucd \<Rightarrow> (pystr \<times> json) list \<Rightarrow> (pystr \<times> json) list \<Rightarrow> pystr \<Rightarrow> pystr \<Rightarrow> py_error + int" where
  "bbox_coord U obj bbox k k' =
     py_int U (py_or (py_or (py_or (dict_get bbox k) (dict_get bbox k'))
                            (dict_get_default obj k (JInt 0)))
                     (JInt 0))"

definition has_flat_box :: "(pystr \<times> json) list \<Rightarrow> bool" where
  "has_flat_box obj =
     (has_key obj (ustr ''left'') \<and> has_key obj (ustr ''top'') \<and>
      has_key obj (ustr ''width'') \<and> has_key obj (ustr ''height''))"

definition box_of :: "ucd \<Rightarrow> (pystr \<times> json) list \<Rightarrow> py_error + (int \<times> int \<times> int \<times> int)" where
  "box_of U obj =
     (if has_flat_box obj then
        bind_res (int_or0 U obj (ustr ''left'')) (\<lambda>l.
        bind_res (int_or0 U obj (ustr ''top'')) (\<lambda>t.
        bind_res (int_or0 U obj (ustr ''width'')) (\<lambda>w.
        bind_res (int_or0 U obj (ustr ''height'')) (\<lambda>h.
        Inr (l, t, w, h)))))
      else
        bind_res (as_dict (py_or (dict_get obj (ustr ''bbox'')) (JObj []))) (\<lambda>bbox.
        bind_res (bbox_coord U obj bbox (ustr ''left'') (ustr ''x'')) (\<lambda>l.
        bind_res (bbox_coord U obj bbox (ustr ''top'') (ustr ''y'')) (\<lambda>t.
        bind_res (bbox_coord U obj bbox (ustr ''width'') (ustr ''w'')) (\<lambda>w.
        bind_res (bbox_coord U obj bbox (ustr ''height'') (ustr ''h'')) (\<lambda>h.
        Inr (l, t, w, h)))))))"

definition block_num_of :: "ucd \<Rightarrow> (pystr \<times> json) list \<Rightarrow> py_error + int" where
  "block_num_of U obj =
     py_int U (py_or (py_or (dict_get obj (ustr ''block_num'')) (dict_get obj (ustr ''block_id'')))
                     (JInt 0))"

definition normalize_row :: "ucd \<Rightarrow> json \<Rightarrow> py_error + word_token" where
  "normalize_row U v =
     bind_res (as_dict v) (\<lambda>obj.
     bind_res (py_int U (dict_get_default obj (ustr ''page'') (JInt 1))) (\<lambda>page.
     bind_res (text_of U obj) (\<lambda>tx.
     bind_res (box_of U obj) (\<lambda>(l, t, w, h).
     bind_res (block_num_of U obj) (\<lambda>bn.
     bind_res (int_or0 U obj (ustr ''par_num'')) (\<lambda>pn.
     bind_res (int_or0 U obj (ustr ''line_num'')) (\<lambda>ln.
     Inr \<lparr> w_page = page, w_text = tx, w_conf = conf_of U (dict_get obj (ustr ''conf'')),
           w_left = l, w_top = t, w_width = w, w_height = h,
           w_block_num = bn, w_par_num = pn, w_line_num = ln \<rparr>)))))))"

definition row_of_token :: "word_token \<Rightarrow> json" where
  "row_of_token t =
     JObj [(ustr ''page'', JInt (w_page t)),
           (ustr ''text'', JStr (w_text t)),
           (ustr ''conf'', (case w_conf t of None \<Rightarrow> JNull | Some c \<Rightarrow> JInt c)),
           (ustr ''left'', JInt (w_left t)),
           (ustr ''top'', JInt (w_top t)),
           (ustr ''width'', JInt (w_width t)),
           (ustr ''height'', JInt (w_height t)),
           (ustr ''block_num'', JInt (w_block_num t)),
           (ustr ''par_num'', JInt (w_par_num t)),
           (ustr ''line_num'', JInt (w_line_num t))]"

subsection \<open>Well-typed rows and the resolution order in the specification's words\<close>





text \<open>
  The resolution order as a search: the first candidate that Python counts as true, and
  the integer 0 when there is none.
\<close>

definition first_truthy :: "json list \<Rightarrow> json" where
  "first_truthy vs = (case filter truthy vs of [] \<Rightarrow> JInt 0 | v # rest \<Rightarrow> v)"

subsection \<open>Character tables for ASCII and Devanagari text\<close>

text \<open>
  The concrete evaluations below run on texts of ASCII and Devanagari characters. For
  them the tables hold the Unicode data of the Devanagari block U+0900 to U+097F (its
  letters, of general category Lo or Lm, and its digits U+0966 to U+096F) and the
  whitespace characters beyond ASCII.
\<close>

definition deva_letter :: "nat \<Rightarrow> bool" where
  "deva_letter c =
     ((2308 \<le> c \<and> c \<le> 2361) \<or> c = 2365 \<or> c = 2384 \<or>
      (2392 \<le> c \<and> c \<le> 2401) \<or> (2417 \<le> c \<and> c \<le> 2431))"

definition deva_tables :: ucd where
  "deva_tables =
     \<lparr> u_space = (\<lambda>c. c = 133 \<or> c = 160 \<or> c = 5760 \<or> (8192 \<le> c \<and> c \<le> 8202) \<or>
                     c = 8232 \<or> c = 8233 \<or> c = 8239 \<or> c = 8287 \<or> c = 12288),
       u_alpha = deva_letter,
       u_digit = (\<lambda>c. 2406 \<le> c \<and> c \<le> 2415),
       u_decimal = (\<lambda>c. if 2406 \<le> c \<and> c \<le> 2415 then Some (c - 2406) else None) \<rparr>"

section \<open>Script Classifier: \<open>script_ratio\<close> and \<open>guess_lang\<close>\<close>

definition is_devanagari_char :: "nat \<Rightarrow> bool" where
  "is_devanagari_char ch = (2304 \<le> ch \<and> ch \<le> 2431)"

text \<open>
  \<open>dev / total\<close> is a division of two counts and \<open>0.3\<close>, \<open>0.05\<close> are float
  literals. The ratio is kept as the exact rational and the literals as \<open>3/10\<close> and
  \<open>1/20\<close>: the float quotient is the rounding of the exact one, the literals are
  the roundings of \<open>3/10\<close> and \<open>1/20\<close>, and for a text of fewer than \<open>10^15\<close>
  letters the two comparisons come out the same on the rounded and the exact values.
\<close>

definition script_ratio :: "ucd \<Rightarrow> pystr \<Rightarrow> rat" where
  "script_ratio U text =
     (if text = [] then 0
      else (let dev = length (filter is_devanagari_char text);
                total = length (filter (isalpha U) text)
            in if total > 0 then of_nat dev / of_nat total else 0))"

datatype lang = Hindi | Mixed | English

definition guess_lang :: "ucd \<Rightarrow> pystr \<Rightarrow> lang" where
  "guess_lang U text =
     (let r = script_ratio U text
      in if r > 3 / 10 then Hindi else if r < 1 / 20 then English else Mixed)"

text \<open>
  The ratio in the specification's words: the fraction of the alphabetic characters of
  the text that lie in the Devanagari block.
\<close>

definition spec_script_ratio :: "ucd \<Rightarrow> pystr \<Rightarrow> rat" where
  "spec_script_ratio U text =
     (let dev = length (filter (\<lambda>c. isalpha U c \<and> is_devanagari_char c) text);
          total = length (filter (isalpha U) text)
      in if total = 0 then 0 else of_nat dev / of_nat total)"

section \<open>Line Reconstructor: \<open>group_words_to_lines\<close>\<close>

record text_line =
  l_text :: pystr
  l_left :: int
  l_top :: int
  l_right :: int
  l_bottom :: int
  l_conf :: "int option"
  l_words :: "word_token list"

fun join_space :: "pystr list \<Rightarrow> pystr" where
  "join_space [] = []"
| "join_space [x] = x"
| "join_space (x # y # r) = x @ 32 # join_space (y # r)"

text \<open>\<open>min\<close> and \<open>max\<close> of a sequence raise \<open>ValueError\<close> when it is empty.\<close>

fun py_min :: "int list \<Rightarrow> py_error + int" where
  "py_min [] = Inl ValueError"
| "py_min (x # xs) = Inr (fold min xs x)"

fun py_max :: "int list \<Rightarrow> py_error + int" where
  "py_max [] = Inl ValueError"
| "py_max (x # xs) = Inr (fold max xs x)"

text \<open>
  \<open>int(sum(confs)/len(confs)) if confs else None\<close>: a true division, then \<open>int\<close>,
  which drops the fractional part. The quotient is kept exact. The code divides in
  floats: its quotient is the exact one rounded to 53 bits, and \<open>int\<close> of it is the
  truncated exact quotient as long as the magnitude of the sum plus the count stays below
  \<open>2^53\<close>; beyond that the code rounds, and far beyond it raises \<open>OverflowError\<close>.
  The properties of line confidences below are stated inside that range (see
  \<open>in_float_range\<close>).
\<close>

definition mean_conf :: "int list \<Rightarrow> int option" where
  "mean_conf confs =
     (if confs = [] then None
      else Some (trunc_rat (of_int (sum_list confs) / of_nat (length confs))))"

definition confs_of :: "word_token list \<Rightarrow> int list" where
  "confs_of ws = List.map_filter w_conf ws"

text \<open>
  The statements that build one line from the words of a group; the source has them
  twice, word for word, once on each path (lines 92 to 100 and 119 to 127).
\<close>

definition line_of_words :: "ucd \<Rightarrow> word_token list \<Rightarrow> py_error + text_line" where
  "line_of_words U ws =
     (let words = sort_key w_left ws in
      bind_res (py_min (map w_left words)) (\<lambda>left.
      bind_res (py_min (map w_top words)) (\<lambda>top.
      bind_res (py_max (map (\<lambda>w. w_left w + w_width w) words)) (\<lambda>right.
      bind_res (py_max (map (\<lambda>w. w_top w + w_height w) words)) (\<lambda>bottom.
      Inr \<lparr> l_text = strip U (join_space (map (\<lambda>w. strip U (w_text w)) words)),
            l_left = left, l_top = top, l_right = right, l_bottom = bottom,
            l_conf = mean_conf (confs_of words), l_words = words \<rparr>)))))"

fun traverse :: "('a \<Rightarrow> py_error + 'b) \<Rightarrow> 'a list \<Rightarrow> py_error + 'b list" where
  "traverse f [] = Inr []"
| "traverse f (x # xs) =
     bind_res (f x) (\<lambda>y. bind_res (traverse f xs) (\<lambda>ys. Inr (y # ys)))"

subsection \<open>Grouping by layout metadata\<close>

type_synonym line_key = "int \<times> int \<times> int"

definition key_of :: "word_token \<Rightarrow> line_key" where
  "key_of w = (w_block_num w, w_par_num w, w_line_num w)"

definition has_line_num :: "word_token list \<Rightarrow> bool" where
  "has_line_num page_words = list_ex (\<lambda>w. w_line_num w \<noteq> 0) page_words"

text \<open>\<open>by_line.setdefault(key, []).append(w)\<close> on a dict that keeps insertion order.\<close>

fun setdefault_append ::
  "line_key \<Rightarrow> word_token \<Rightarrow> (line_key \<times> word_token list) list \<Rightarrow> (line_key \<times> word_token list) list" where
  "setdefault_append k w [] = [(k, [w])]"
| "setdefault_append k w ((k', ws) # d) =
     (if k = k' then (k', ws @ [w]) # d else (k', ws) # setdefault_append k w d)"

definition by_line_of :: "word_token list \<Rightarrow> (line_key \<times> word_token list) list" where
  "by_line_of page_words = fold (\<lambda>w d. setdefault_append (key_of w) w d) page_words []"

definition metadata_lines :: "ucd \<Rightarrow> word_token list \<Rightarrow> py_error + text_line list" where
  "metadata_lines U page_words =
     (let by_line = by_line_of page_words in
      traverse (\<lambda>k. case map_of by_line k of
                       None \<Rightarrow> Inl KeyError
                     | Some ws \<Rightarrow> line_of_words U ws)
               (sort (map fst by_line)))"

subsection \<open>Clustering by the \<open>top\<close> coordinate\<close>

record line_group =
  g_top :: int
  g_words :: "word_token list"

text \<open>
  \<open>_median\<close>: the middle element of the sorted list, or the mean of the two middle
  ones (a float, kept exact: it is exact in the code while the sum of the two stays
  below \<open>2^53\<close> in magnitude); \<open>None\<close> on the empty list.
\<close>

definition median :: "int list \<Rightarrow> rat option" where
  "median arr0 =
     (let arr = sort arr0; n = length arr in
      if arr = [] then None
      else if n mod 2 = 1 then Some (of_int (arr ! (n div 2)))
      else Some (of_int (arr ! (n div 2 - 1) + arr ! (n div 2)) / 2))"

definition median_h :: "word_token list \<Rightarrow> rat" where
  "median_h ws =
     (case median (map (\<lambda>w. if w_height w = 0 then 20 else w_height w) ws) of
        None \<Rightarrow> 20
      | Some m \<Rightarrow> if m = 0 then 20 else m)"

text \<open>
  The inner \<open>for g in groups\<close> with its \<open>placed\<close> flag: the word joins the first
  group whose \<open>top\<close> is within the tolerance, and that group's \<open>top\<close> becomes the
  truncated mean; with no such group a new one is appended. The tolerance and the mean
  are floats in the code and exact here, which is the same inside \<open>in_float_range\<close>
  with the tolerance factor 0.5 that \<open>main\<close> uses.
\<close>

fun place_word :: "rat \<Rightarrow> word_token \<Rightarrow> line_group list \<Rightarrow> line_group list" where
  "place_word tol w [] = [\<lparr> g_top = w_top w, g_words = [w] \<rparr>]"
| "place_word tol w (g # gs) =
     (if \<bar>of_int (w_top w - g_top g)\<bar> \<le> tol then
        (let ws = g_words g @ [w] in
         \<lparr> g_top = trunc_rat (of_int (sum_list (map w_top ws)) / of_nat (length ws)),
           g_words = ws \<rparr>) # gs
      else g # place_word tol w gs)"

definition geometric_lines :: "ucd \<Rightarrow> rat \<Rightarrow> word_token list \<Rightarrow> py_error + text_line list" where
  "geometric_lines U y_tol page_words =
     (let page_words_sorted = sort_key w_top page_words;
          tol = median_h page_words_sorted * y_tol;
          groups = fold (place_word tol) page_words_sorted []
      in traverse (\<lambda>g. line_of_words U (g_words g)) groups)"

definition group_words_to_lines :: "ucd \<Rightarrow> word_token list \<Rightarrow> rat \<Rightarrow> py_error + text_line list" where
  "group_words_to_lines U page_words y_tol =
     (if has_line_num page_words then metadata_lines U page_words
      else geometric_lines U y_tol page_words)"

subsection \<open>The range in which the float arithmetic of the page is exact\<close>

text \<open>
  A page of fewer than \<open>2^20\<close> words whose \<open>top\<close>, \<open>height\<close> and confidence are
  all below \<open>2^31\<close> in magnitude. Every sum the Line Reconstructor forms on such a page
  is below \<open>2^51\<close> in magnitude, so each integer converts to a float unchanged, halving
  is exact, and a float quotient of a sum by a count, though rounded, has the same integer
  part as the exact quotient; no \<open>OverflowError\<close> can arise.
\<close>

definition in_float_range :: "word_token list \<Rightarrow> bool" where
  "in_float_range page_words =
     (length page_words < 2 ^ 20 \<and>
      list_all (\<lambda>w. \<bar>w_top w\<bar> < 2 ^ 31 \<and> \<bar>w_height w\<bar> < 2 ^ 31 \<and>
                   (case w_conf w of None \<Rightarrow> True | Some c \<Rightarrow> \<bar>c\<bar> < 2 ^ 31))
               page_words)"

section \<open>Candidate Segmenter: \<open>group_lines_to_candidates\<close>\<close>

record box =
  b_left :: int
  b_top :: int
  b_width :: int
  b_height :: int

record block =
  k_lang :: lang
  k_text :: pystr
  k_bbox :: box
  k_conf :: "int option"

record candidate =
  c_qnum :: "pystr option"
  c_blocks :: "block list"
  c_conf_avg :: "int option"

text \<open>
  \<open>QUESTION_NUM_REGEX\<close>, matched at the start of the text. Every part of the pattern
  after the digits can match the empty string, and the classes that follow one another
  (whitespace, \<open>Q\<close>, digits, the separators) are disjoint, so the greedy choices are the
  match: leading whitespace, \<open>Q\<close> or \<open>Question\<close> and whitespace, then at most four
  digits (group 1), whitespace, one separator, whitespace, and the rest up to the first
  newline (group 2, which \<open>detect_question_number\<close> strips).
\<close>

definition skip_q :: "ucd \<Rightarrow> pystr \<Rightarrow> pystr" where
  "skip_q U s =
     (case s of
        [] \<Rightarrow> []
      | c # r \<Rightarrow>
          if c = 81 then
            dropWhile (isspace U) (if take 7 r = ustr ''uestion'' then drop 7 r else r)
          else s)"

definition skip_sep :: "pystr \<Rightarrow> pystr" where
  "skip_sep s =
     (case s of
        [] \<Rightarrow> []
      | c # r \<Rightarrow> if c = 41 \<or> c = 46 \<or> c = 58 \<or> c = 45 then r else s)"

definition detect_question_number :: "ucd \<Rightarrow> pystr \<Rightarrow> pystr option \<times> pystr" where
  "detect_question_number U line_text =
     (let s = skip_q U (dropWhile (isspace U) line_text);
          qnum = takeWhile (\<lambda>c. decimal U c \<noteq> None) (take 4 s)
      in if qnum = [] then (None, line_text)
         else
           (let s' = dropWhile (isspace U) (skip_sep (dropWhile (isspace U) (drop (length qnum) s)))
            in (Some qnum, strip U (takeWhile (\<lambda>c. c \<noteq> 10) s'))))"

text \<open>The answer-option pattern: whitespace, a letter A to D, whitespace, \<open>.\<close> or \<open>)\<close>.\<close>

definition is_option_marker :: "ucd \<Rightarrow> pystr \<Rightarrow> bool" where
  "is_option_marker U s =
     (case dropWhile (isspace U) s of
        [] \<Rightarrow> False
      | c # r \<Rightarrow>
          65 \<le> c \<and> c \<le> 68 \<and>
          (case dropWhile (isspace U) r of [] \<Rightarrow> False | d # r' \<Rightarrow> d = 46 \<or> d = 41))"

definition bbox_of_line :: "text_line \<Rightarrow> box" where
  "bbox_of_line line =
     \<lparr> b_left = l_left line, b_top = l_top line,
       b_width = l_right line - l_left line, b_height = l_bottom line - l_top line \<rparr>"

definition block_of :: "ucd \<Rightarrow> text_line \<Rightarrow> block" where
  "block_of U line =
     \<lparr> k_lang = guess_lang U (l_text line), k_text = l_text line,
       k_bbox = bbox_of_line line, k_conf = l_conf line \<rparr>"

definition avg_conf :: "block list \<Rightarrow> int option" where
  "avg_conf blocks = mean_conf (List.map_filter k_conf blocks)"

text \<open>
  The test of the vertical gap: \<open>line_height = bottom - top or 1\<close>, then
  \<open>nxt['top'] - line['bottom'] > line_height * 6\<close>.
\<close>

definition line_height :: "text_line \<Rightarrow> int" where
  "line_height line = (if l_bottom line - l_top line = 0 then 1 else l_bottom line - l_top line)"

definition gap_exceeded :: "text_line \<Rightarrow> text_line \<Rightarrow> bool" where
  "gap_exceeded line nxt = (l_top nxt - l_bottom line > line_height line * 6)"

definition is_numbered :: "ucd \<Rightarrow> text_line \<Rightarrow> bool" where
  "is_numbered U line = (fst (detect_question_number U (l_text line)) \<noteq> None)"

text \<open>The inner loop of the numbered branch, on its state \<open>line\<close>, \<open>i\<close>, \<open>blocks\<close>.\<close>

function numbered_scan ::
  "ucd \<Rightarrow> text_line list \<Rightarrow> text_line \<Rightarrow> nat \<Rightarrow> block list \<Rightarrow> block list \<times> nat" where
  "numbered_scan U lines line i blocks =
     (if i < length lines then
        (let nxt = lines ! i in
         if is_numbered U nxt then (blocks, i)
         else if gap_exceeded line nxt then (blocks, i)
         else numbered_scan U lines nxt (i + 1) (blocks @ [block_of U nxt]))
      else (blocks, i))"
  by pat_completeness auto
termination
  by (relation "measure (\<lambda>(U, lines, line, i, blocks). length lines - i)") auto

declare numbered_scan.simps [simp del]

text \<open>
  The unnumbered branch: the loop that collects up to six lines, and the loop it enters
  after an option marker, which runs to the next option marker or to eight lines from
  the start of the chunk.
\<close>

function option_scan ::
  "ucd \<Rightarrow> text_line list \<Rightarrow> nat \<Rightarrow> nat \<Rightarrow> block list \<Rightarrow> block list \<times> nat" where
  "option_scan U lines i j blocks =
     (if j < length lines \<and> \<not> is_option_marker U (l_text (lines ! j)) \<and> j < i + 8 then
        option_scan U lines i (j + 1) (blocks @ [block_of U (lines ! j)])
      else (blocks, j))"
  by pat_completeness auto
termination
  by (relation "measure (\<lambda>(U, lines, i, j, blocks). length lines - j)") auto

declare option_scan.simps [simp del]

function chunk_scan ::
  "ucd \<Rightarrow> text_line list \<Rightarrow> nat \<Rightarrow> nat \<Rightarrow> block list \<Rightarrow> block list \<times> nat" where
  "chunk_scan U lines i j blocks =
     (if j < min (length lines) (i + 6) then
        (let blocks' = blocks @ [block_of U (lines ! j)] in
         if is_option_marker U (l_text (lines ! j)) then option_scan U lines i (j + 1) blocks'
         else chunk_scan U lines i (j + 1) blocks')
      else (blocks, j))"
  by pat_completeness auto
termination
  by (relation "measure (\<lambda>(U, lines, i, j, blocks). length lines - j)") auto

declare chunk_scan.simps [simp del]

definition chunk_text :: "ucd \<Rightarrow> block list \<Rightarrow> pystr" where
  "chunk_text U blocks = strip U (join_space (map k_text blocks))"

text \<open>
  One pass of the outer loop at position \<open>i < len(lines)\<close>: the candidate it appends, if
  any, and the next position.
\<close>

definition segment_step :: "ucd \<Rightarrow> text_line list \<Rightarrow> nat \<Rightarrow> candidate option \<times> nat" where
  "segment_step U lines i =
     (let line = lines ! i in
      case detect_question_number U (l_text line) of
        (Some qnum, rest) \<Rightarrow>
          (case numbered_scan U lines line (i + 1)
                  [\<lparr> k_lang = guess_lang U (l_text line),
                      k_text = (if rest = [] then l_text line else rest),
                      k_bbox = bbox_of_line line, k_conf = l_conf line \<rparr>] of
             (blocks, i') \<Rightarrow>
               (Some \<lparr> c_qnum = Some qnum, c_blocks = blocks, c_conf_avg = avg_conf blocks \<rparr>, i'))
      | (None, rest) \<Rightarrow>
          (case chunk_scan U lines i i [] of
             (blocks, j) \<Rightarrow>
               if length (chunk_text U blocks) > 10 then
                 (Some \<lparr> c_qnum = None, c_blocks = blocks, c_conf_avg = avg_conf blocks \<rparr>, j)
               else (None, i + 1)))"

text \<open>
  The outer \<open>while i < n\<close>. Each pass moves \<open>i\<close> forward (the numbered branch starts
  its scan at \<open>i + 1\<close>, the unnumbered one collects at least the line at \<open>i\<close>), so the
  loop ends.
\<close>

function group_from :: "ucd \<Rightarrow> text_line list \<Rightarrow> nat \<Rightarrow> candidate list" where
  "group_from U lines i =
     (if i < length lines then
        (case segment_step U lines i of
           (c, i') \<Rightarrow> (case c of None \<Rightarrow> [] | Some x \<Rightarrow> [x]) @ group_from U lines i')
      else [])"
  by pat_completeness auto
termination
proof (relation "measure (\<lambda>(U, lines, i). length lines - i)")
  show "wf (measure (\<lambda>(U, lines, i). length lines - i))"
    by simp
next
  fix U :: ucd and lines :: "text_line list" and i :: nat
    and c :: "candidate option" and i' :: nat
  assume lt: "i < length lines" and step: "(c, i') = segment_step U lines i"
  have ns: "k \<le> snd (numbered_scan V ls line k bs)" for V ls line k bs
  proof (induction V ls line k bs rule: numbered_scan.induct)
    case (1 U lines line i blocks)
    show ?case
    proof (cases "i < length lines \<and> \<not> is_numbered U (lines ! i) \<and> \<not> gap_exceeded line (lines ! i)")
      case True
      then have "i + 1 \<le> snd (numbered_scan U lines (lines ! i) (i + 1) (blocks @ [block_of U (lines ! i)]))"
        using 1 by simp
      with True show ?thesis
        by (simp add: numbered_scan.simps [of U lines line i] Let_def)
    next
      case False
      then show ?thesis
        by (auto simp: numbered_scan.simps [of U lines line i] Let_def)
    qed
  qed
  have os: "j \<le> snd (option_scan V ls k j bs)" for V ls k j bs
  proof (induction V ls k j bs rule: option_scan.induct)
    case (1 U lines i j blocks)
    show ?case
    proof (cases "j < length lines \<and> \<not> is_option_marker U (l_text (lines ! j)) \<and> j < i + 8")
      case True
      then have "j + 1 \<le> snd (option_scan U lines i (j + 1) (blocks @ [block_of U (lines ! j)]))"
        using 1 by simp
      with True show ?thesis
        by (simp add: option_scan.simps [of U lines i j])
    next
      case False
      then show ?thesis
        by (auto simp: option_scan.simps [of U lines i j])
    qed
  qed
  have cs: "j \<le> snd (chunk_scan V ls k j bs)" for V ls k j bs
  proof (induction V ls k j bs rule: chunk_scan.induct)
    case (1 U lines i j blocks)
    show ?case
    proof (cases "j < min (length lines) (i + 6)")
      case True
      note lt = True
      show ?thesis
      proof (cases "is_option_marker U (l_text (lines ! j))")
        case True
        with lt os [where j = "j + 1" and k = i and bs = "blocks @ [block_of U (lines ! j)]" and V = U and ls = lines] show ?thesis
          by (simp add: chunk_scan.simps [of U lines i j] Let_def)
      next
        case False
        with lt 1 have "j + 1 \<le> snd (chunk_scan U lines i (j + 1) (blocks @ [block_of U (lines ! j)]))"
          by simp
        with lt False show ?thesis
          by (simp add: chunk_scan.simps [of U lines i j] Let_def)
      qed
    next
      case False
      then show ?thesis
        by (auto simp: chunk_scan.simps [of U lines i j])
    qed
  qed
  have c0: "i < snd (chunk_scan U lines i i [])"
  proof (cases "is_option_marker U (l_text (lines ! i))")
    case True
    with lt os [where j = "i + 1" and k = i and bs = "[block_of U (lines ! i)]" and V = U and ls = lines] show ?thesis
      by (simp add: chunk_scan.simps [of U lines i i] Let_def)
  next
    case False
    with lt cs [where j = "i + 1" and k = i and bs = "[block_of U (lines ! i)]" and V = U and ls = lines] show ?thesis
      by (simp add: chunk_scan.simps [of U lines i i] Let_def)
  qed
  have "i < snd (segment_step U lines i)"
  proof (cases "detect_question_number U (l_text (lines ! i))")
    case (Pair q rest)
    show ?thesis
    proof (cases q)
      case None
      with Pair c0 show ?thesis
        by (auto simp: segment_step_def Let_def split: prod.splits)
    next
      case (Some qnum)
      let ?b = "\<lparr> k_lang = guess_lang U (l_text (lines ! i)),
                  k_text = (if rest = [] then l_text (lines ! i) else rest),
                  k_bbox = bbox_of_line (lines ! i), k_conf = l_conf (lines ! i) \<rparr>"
      obtain bs k where r: "numbered_scan U lines (lines ! i) (i + 1) [?b] = (bs, k)"
        by (cases "numbered_scan U lines (lines ! i) (i + 1) [?b]") blast
      from ns [where k = "i + 1" and V = U and ls = lines and line = "lines ! i" and bs = "[?b]"] r
      have "i + 1 \<le> k"
        by simp
      with Pair Some r show ?thesis
        by (simp add: segment_step_def Let_def)
    qed
  qed
  with step have "i < i'"
    by (metis snd_conv)
  with lt show "((U, lines, i'), (U, lines, i)) \<in> measure (\<lambda>(U, lines, i). length lines - i)"
    by simp
qed

declare group_from.simps [simp del]

definition group_lines_to_candidates :: "ucd \<Rightarrow> text_line list \<Rightarrow> candidate list" where
  "group_lines_to_candidates U lines = group_from U lines 0"

section \<open>Sample data for the concrete evaluations\<close>

text \<open>
  A word of page 1, block 1, paragraph 1, ten pixels wide and high, and a line without
  words that spans the columns 0 to 100.
\<close>

definition sample_word :: "string \<Rightarrow> int option \<Rightarrow> int \<Rightarrow> int \<Rightarrow> int \<Rightarrow> word_token" where
  "sample_word s c l t n =
     \<lparr> w_page = 1, w_text = ustr s, w_conf = c, w_left = l, w_top = t, w_width = 10,
       w_height = 10, w_block_num = 1, w_par_num = 1, w_line_num = n \<rparr>"

definition sample_line :: "string \<Rightarrow> int \<Rightarrow> int \<Rightarrow> text_line" where
  "sample_line s t b =
     \<lparr> l_text = ustr s, l_left = 0, l_top = t, l_right = 100, l_bottom = b,
       l_conf = None, l_words = [] \<rparr>"

section \<open>Properties of the Record Normalizer\<close>

subsection \<open>Strings and digits\<close>

lemma ustr_eq_iff [simp]: "ustr a = ustr b \<longleftrightarrow> a = b"
  unfolding ustr_def by (rule inj_map_eq_map) (rule inj_of_char)

lemma hd_rev_dropWhile_rev:
  assumes "rev (dropWhile P (rev xs)) \<noteq> []"
  shows "hd (rev (dropWhile P (rev xs))) = hd xs"
proof -
  have "rev (takeWhile P (rev xs) @ dropWhile P (rev xs)) = rev (rev xs)"
    by (simp only: takeWhile_dropWhile_id)
  then have "xs = rev (dropWhile P (rev xs)) @ rev (takeWhile P (rev xs))"
    by (simp only: rev_append rev_rev_ident)
  then show ?thesis using assms by (metis hd_append2)
qed

lemma lstrip_strip: "lstrip U (strip U s) = strip U s"
proof (cases "strip U s = []")
  case True then show ?thesis by (simp add: lstrip_def)
next
  case False
  then have ne: "rev (dropWhile (isspace U) (rev (dropWhile (isspace U) s))) \<noteq> []"
    by (simp add: strip_def rstrip_def lstrip_def)
  then have tne: "dropWhile (isspace U) s \<noteq> []" by (cases "dropWhile (isspace U) s") simp_all
  have "hd (strip U s) = hd (dropWhile (isspace U) s)"
    unfolding strip_def rstrip_def lstrip_def using ne by (rule hd_rev_dropWhile_rev)
  moreover have "\<not> isspace U (hd (dropWhile (isspace U) s))"
    using tne by (simp add: hd_dropWhile)
  ultimately show ?thesis
    unfolding lstrip_def using False by (simp add: dropWhile_eq_self_iff)
qed

lemma strip_idem: "strip U (strip U s) = strip U s"
proof -
  have "strip U (strip U s) = rstrip U (strip U s)"
    by (simp add: strip_def[of U "strip U s"] lstrip_strip)
  also have "\<dots> = strip U s"
    by (simp add: strip_def rstrip_def)
  finally show ?thesis .
qed

lemma str_of_nat_digits: "str_of_nat n \<noteq> [] \<and> list_all (\<lambda>c. 48 \<le> c \<and> c \<le> 57) (str_of_nat n)"
proof (induction n rule: str_of_nat.induct)
  case (1 n)
  show ?case
  proof (cases "n < 10")
    case True then show ?thesis by (simp add: str_of_nat.simps[of n])
  next
    case False
    with 1 show ?thesis by (simp add: str_of_nat.simps[of n])
  qed
qed

lemma str_of_nat_isdigit: "str_isdigit U (str_of_nat n)"
proof -
  have "list_all (isdigit U) (str_of_nat n)"
    using str_of_nat_digits[of n] by (auto simp: list_all_iff isdigit_def)
  then show ?thesis using str_of_nat_digits[of n] by (simp add: str_isdigit_def)
qed

lemma lstrip_minus_digits: "str_isdigit U s \<Longrightarrow> lstrip_minus s = s"
  unfolding lstrip_minus_def str_isdigit_def
  by (cases s) (auto simp: isdigit_def)

lemma str_of_int_isdigit: "str_isdigit U (lstrip_minus (str_of_int n))"
proof (cases "n < 0")
  case True
  have "lstrip_minus (45 # str_of_nat (nat (- n))) = lstrip_minus (str_of_nat (nat (- n)))"
    by (simp add: lstrip_minus_def)
  then show ?thesis using True
    by (simp add: str_of_int_def lstrip_minus_digits[OF str_of_nat_isdigit] str_of_nat_isdigit)
next
  case False
  then show ?thesis
    by (simp add: str_of_int_def lstrip_minus_digits[OF str_of_nat_isdigit] str_of_nat_isdigit)
qed


lemma bind_res_Inr: "bind_res r f = Inr y \<longleftrightarrow> (\<exists>x. r = Inr x \<and> f x = Inr y)"
  by (cases r) (simp_all add: bind_res_def)

lemma text_of_strip: "text_of U obj = Inr s \<Longrightarrow> \<exists>s0. s = strip U s0"
  unfolding text_of_def by (auto split: json.splits)

lemma normalize_row_text:
  assumes "normalize_row U v = Inr t"
  shows "\<exists>s0. w_text t = strip U s0"
proof -
  from assms obtain obj page tx where t: "text_of U obj = Inr tx"
    and r: "bind_res (box_of U obj) (\<lambda>(l, t, w, h).
     bind_res (block_num_of U obj) (\<lambda>bn.
     bind_res (int_or0 U obj (ustr ''par_num'')) (\<lambda>pn.
     bind_res (int_or0 U obj (ustr ''line_num'')) (\<lambda>ln.
     Inr \<lparr> w_page = page, w_text = tx, w_conf = conf_of U (dict_get obj (ustr ''conf'')),
           w_left = l, w_top = t, w_width = w, w_height = h,
           w_block_num = bn, w_par_num = pn, w_line_num = ln \<rparr>)))) = Inr t"
    unfolding normalize_row_def bind_res_Inr by blast
  from r have "w_text t = tx"
    by (auto simp: bind_res_Inr split: prod.splits)
  with text_of_strip[OF t] show ?thesis by simp
qed

lemma py_int_or0: "py_int U (py_or (JInt n) (JInt 0)) = Inr n"
  by (simp add: py_or_def)

lemma normalize_row_of_token:
  fixes t :: word_token
  shows "normalize_row U (row_of_token t) = Inr (t\<lparr>w_text := strip U (w_text t)\<rparr>)"
proof -
  let ?d = "[(ustr ''page'', JInt (w_page t)),
           (ustr ''text'', JStr (w_text t)),
           (ustr ''conf'', (case w_conf t of None \<Rightarrow> JNull | Some c \<Rightarrow> JInt c)),
           (ustr ''left'', JInt (w_left t)),
           (ustr ''top'', JInt (w_top t)),
           (ustr ''width'', JInt (w_width t)),
           (ustr ''height'', JInt (w_height t)),
           (ustr ''block_num'', JInt (w_block_num t)),
           (ustr ''par_num'', JInt (w_par_num t)),
           (ustr ''line_num'', JInt (w_line_num t))]"
  have page: "py_int U (dict_get_default ?d (ustr ''page'') (JInt 1)) = Inr (w_page t)"
    by (simp add: dict_get_default_def)
  have tx: "text_of U ?d = Inr (strip U (w_text t))"
    by (simp add: text_of_def dict_get_def py_or_def strip_def lstrip_def rstrip_def)
  have conf: "conf_of U (dict_get ?d (ustr ''conf'')) = w_conf t"
    by (cases "w_conf t") (simp_all add: dict_get_def str_of_int_isdigit)
  have box: "box_of U ?d = Inr (w_left t, w_top t, w_width t, w_height t)"
    by (simp add: box_of_def has_flat_box_def has_key_def int_or0_def dict_get_def
        py_int_or0 bind_res_def)
  have bn: "block_num_of U ?d = Inr (w_block_num t)"
    by (simp add: block_num_of_def dict_get_def py_or_def)
  have pn: "int_or0 U ?d (ustr ''par_num'') = Inr (w_par_num t)"
    by (simp add: int_or0_def dict_get_def py_int_or0)
  have ln: "int_or0 U ?d (ustr ''line_num'') = Inr (w_line_num t)"
    by (simp add: int_or0_def dict_get_def py_int_or0)
  show ?thesis
    unfolding normalize_row_def row_of_token_def
    by (simp only: as_dict_def json.case bind_res_def sum.case page tx conf box bn pn ln prod.case)
       (cases t, simp)
qed

subsection \<open>Totality on well-typed rows\<close>













subsection \<open>Bounding box resolution\<close>

lemma falsy_default: "truthy (dict_get_default obj k (JInt 0)) = truthy (dict_get obj k)"
  by (simp add: dict_get_default_def dict_get_def split: option.splits)

lemma truthy_default: "truthy (dict_get obj k) \<Longrightarrow> dict_get_default obj k (JInt 0) = dict_get obj k"
  by (simp add: dict_get_default_def dict_get_def split: option.splits)

lemma or_chain_first_truthy:
  "py_or (py_or (py_or a b) (dict_get_default obj k (JInt 0))) (JInt 0)
     = first_truthy [a, b, dict_get obj k]"
  using falsy_default[of obj k] truthy_default[of obj k]
  by (simp add: py_or_def first_truthy_def)

lemma or0_first_truthy: "py_or a (JInt 0) = first_truthy [a]"
  by (simp add: py_or_def first_truthy_def)

lemma normalize_row_box:
  assumes "normalize_row U (JObj obj) = Inr t"
  shows "box_of U obj = Inr (w_left t, w_top t, w_width t, w_height t)"
proof -
  from assms obtain page tx where
    r: "bind_res (box_of U obj) (\<lambda>(l, t, w, h).
     bind_res (block_num_of U obj) (\<lambda>bn.
     bind_res (int_or0 U obj (ustr ''par_num'')) (\<lambda>pn.
     bind_res (int_or0 U obj (ustr ''line_num'')) (\<lambda>ln.
     Inr \<lparr> w_page = page, w_text = tx, w_conf = conf_of U (dict_get obj (ustr ''conf'')),
           w_left = l, w_top = t, w_width = w, w_height = h,
           w_block_num = bn, w_par_num = pn, w_line_num = ln \<rparr>)))) = Inr t"
    unfolding normalize_row_def bind_res_Inr by (auto simp: as_dict_def)
  then show ?thesis
    by (auto simp: bind_res_Inr split: prod.splits)
qed

text \<open>
  Claim C2, as the code has it. When a row has all four of \<open>left\<close>, \<open>top\<close>,
  \<open>width\<close>, \<open>height\<close>, each coordinate is \<open>int\<close> of that field, or 0 when Python
  counts the field as false (null, 0, empty). Otherwise \<open>bbox\<close> (or an empty mapping, when
  it is absent or counts as false) must be a mapping, and each coordinate is \<open>int\<close> of
  the first value that counts as true among the nested long name, the nested short name
  and the top-level field of the same name, or 0 when there is none. A nested 0 counts as
  false, so it gives way to a later candidate.
\<close>

theorem bbox_resolution:
  assumes "normalize_row U (JObj obj) = Inr t"
  shows "(has_flat_box obj \<longrightarrow>
            py_int U (first_truthy [dict_get obj (ustr ''left'')]) = Inr (w_left t) \<and>
            py_int U (first_truthy [dict_get obj (ustr ''top'')]) = Inr (w_top t) \<and>
            py_int U (first_truthy [dict_get obj (ustr ''width'')]) = Inr (w_width t) \<and>
            py_int U (first_truthy [dict_get obj (ustr ''height'')]) = Inr (w_height t)) \<and>
         (\<not> has_flat_box obj \<longrightarrow>
            (\<exists>b. py_or (dict_get obj (ustr ''bbox'')) (JObj []) = JObj b \<and>
              py_int U (first_truthy [dict_get b (ustr ''left''), dict_get b (ustr ''x''),
                                      dict_get obj (ustr ''left'')]) = Inr (w_left t) \<and>
              py_int U (first_truthy [dict_get b (ustr ''top''), dict_get b (ustr ''y''),
                                      dict_get obj (ustr ''top'')]) = Inr (w_top t) \<and>
              py_int U (first_truthy [dict_get b (ustr ''width''), dict_get b (ustr ''w''),
                                      dict_get obj (ustr ''width'')]) = Inr (w_width t) \<and>
              py_int U (first_truthy [dict_get b (ustr ''height''), dict_get b (ustr ''h''),
                                      dict_get obj (ustr ''height'')]) = Inr (w_height t)))"
proof (cases "has_flat_box obj")
  case True
  with normalize_row_box[OF assms] show ?thesis
    by (auto simp: box_of_def bind_res_Inr int_or0_def or0_first_truthy)
next
  case False
  with normalize_row_box[OF assms] obtain b where
    b: "as_dict (py_or (dict_get obj (ustr ''bbox'')) (JObj [])) = Inr b"
    and c: "bbox_coord U obj b (ustr ''left'') (ustr ''x'') = Inr (w_left t)"
      "bbox_coord U obj b (ustr ''top'') (ustr ''y'') = Inr (w_top t)"
      "bbox_coord U obj b (ustr ''width'') (ustr ''w'') = Inr (w_width t)"
      "bbox_coord U obj b (ustr ''height'') (ustr ''h'') = Inr (w_height t)"
    by (auto simp: box_of_def bind_res_Inr)
  from b have "py_or (dict_get obj (ustr ''bbox'')) (JObj []) = JObj b"
    by (auto simp: as_dict_def split: json.splits)
  with c False show ?thesis
    by (simp add: bbox_coord_def or_chain_first_truthy)
qed

theorem bbox_resolution_witness:
  "normalize_row deva_tables
     (JObj [(ustr ''bbox'', JObj [(ustr ''x'', JInt 4), (ustr ''top'', JInt 1),
                                  (ustr ''w'', JInt 2), (ustr ''height'', JInt 0)]),
            (ustr ''height'', JInt 9)])
     = Inr \<lparr> w_page = 1, w_text = [], w_conf = None, w_left = 4, w_top = 1, w_width = 2,
             w_height = 9, w_block_num = 0, w_par_num = 0, w_line_num = 0 \<rparr> \<and>
   \<not> has_flat_box [(ustr ''bbox'', JObj [(ustr ''x'', JInt 4), (ustr ''top'', JInt 1),
                                        (ustr ''w'', JInt 2), (ustr ''height'', JInt 0)]),
                    (ustr ''height'', JInt 9)] \<and>
   (\<exists>b. py_or (dict_get [(ustr ''bbox'', JObj [(ustr ''x'', JInt 4), (ustr ''top'', JInt 1),
                                        (ustr ''w'', JInt 2), (ustr ''height'', JInt 0)]),
                    (ustr ''height'', JInt 9)] (ustr ''bbox'')) (JObj []) = JObj b \<and>
        py_int deva_tables
          (first_truthy [dict_get b (ustr ''height''), dict_get b (ustr ''h''), JInt 9]) = Inr 9)"
proof -
  let ?obj = "[(ustr ''bbox'', JObj [(ustr ''x'', JInt 4), (ustr ''top'', JInt 1),
                                     (ustr ''w'', JInt 2), (ustr ''height'', JInt 0)]),
               (ustr ''height'', JInt 9)]"
  let ?t = "\<lparr> w_page = 1, w_text = [], w_conf = None, w_left = 4, w_top = 1, w_width = 2,
             w_height = 9, w_block_num = 0, w_par_num = 0, w_line_num = 0 \<rparr>"
  have h: "normalize_row deva_tables (JObj ?obj) = Inr ?t"
    by code_simp
  have nf: "\<not> has_flat_box ?obj"
    by code_simp
  have g: "dict_get ?obj (ustr ''height'') = JInt 9"
    by code_simp
  from bbox_resolution [OF h] nf g show ?thesis
    using h by auto
qed

text \<open>
  Claim C2 as stated fails: with a nested box present whose \<open>left\<close> is an explicit 0 and
  a top-level \<open>left\<close> of 7, the resolved \<open>left\<close> is 7, not 0.
\<close>

theorem nested_zero_falls_through:
  "map_sum id w_left
     (normalize_row deva_tables
        (JObj [(ustr ''left'', JInt 7),
               (ustr ''bbox'', JObj [(ustr ''left'', JInt 0), (ustr ''top'', JInt 1),
                                     (ustr ''width'', JInt 2), (ustr ''height'', JInt 3)])]))
     = Inr 7"
  by code_simp

subsection \<open>Idempotence\<close>

text \<open>
  Claim C8. A token that \<open>normalize_row\<close> produced, given back to \<open>normalize_row\<close> as
  the dict it is, comes out unchanged in every field: page, text, conf, left, top, width,
  height, block_num, par_num and line_num.
\<close>

theorem normalize_row_idempotent:
  "normalize_row U v = Inr t \<Longrightarrow> normalize_row U (row_of_token t) = Inr t"
proof -
  assume a: "normalize_row U v = Inr t"
  then obtain s0 where "w_text t = strip U s0" using normalize_row_text by blast
  then have "t\<lparr>w_text := strip U (w_text t)\<rparr> = t" by (simp add: strip_idem)
  then show ?thesis by (simp add: normalize_row_of_token)
qed

theorem normalize_row_idempotent_witness:
  "normalize_row deva_tables
     (JObj [(ustr ''page'', JStr (ustr '' 2 '')), (ustr ''ocr_text'', JStr (ustr '' Q1. What '')),
            (ustr ''conf'', JStr (ustr ''-1'')),
            (ustr ''bbox'', JObj [(ustr ''x'', JInt 4), (ustr ''y'', JInt 1),
                                  (ustr ''w'', JInt 2), (ustr ''h'', JInt 3)]),
            (ustr ''block_id'', JInt 3)])
     = Inr \<lparr> w_page = 2, w_text = ustr ''Q1. What'', w_conf = Some (- 1), w_left = 4,
             w_top = 1, w_width = 2, w_height = 3, w_block_num = 3, w_par_num = 0,
             w_line_num = 0 \<rparr> \<and>
   normalize_row deva_tables
     (row_of_token \<lparr> w_page = 2, w_text = ustr ''Q1. What'', w_conf = Some (- 1), w_left = 4,
             w_top = 1, w_width = 2, w_height = 3, w_block_num = 3, w_par_num = 0,
             w_line_num = 0 \<rparr>)
     = Inr \<lparr> w_page = 2, w_text = ustr ''Q1. What'', w_conf = Some (- 1), w_left = 4,
             w_top = 1, w_width = 2, w_height = 3, w_block_num = 3, w_par_num = 0,
             w_line_num = 0 \<rparr>"
proof -
  have h: "normalize_row deva_tables
     (JObj [(ustr ''page'', JStr (ustr '' 2 '')), (ustr ''ocr_text'', JStr (ustr '' Q1. What '')),
            (ustr ''conf'', JStr (ustr ''-1'')),
            (ustr ''bbox'', JObj [(ustr ''x'', JInt 4), (ustr ''y'', JInt 1),
                                  (ustr ''w'', JInt 2), (ustr ''h'', JInt 3)]),
            (ustr ''block_id'', JInt 3)])
     = Inr \<lparr> w_page = 2, w_text = ustr ''Q1. What'', w_conf = Some (- 1), w_left = 4,
             w_top = 1, w_width = 2, w_height = 3, w_block_num = 3, w_par_num = 0,
             w_line_num = 0 \<rparr>"
    by code_simp
  from h normalize_row_idempotent [OF h] show ?thesis
    by (rule conjI)
qed

section \<open>Properties of the Script Classifier\<close>

lemma filter_alpha_deva:
  assumes "\<forall>c\<in>set text. is_devanagari_char c \<longrightarrow> isalpha U c"
  shows "filter (\<lambda>c. isalpha U c \<and> is_devanagari_char c) text = filter is_devanagari_char text"
  using assms by (intro filter_cong) auto

lemma length_filter_conj_le:
  "length (filter (\<lambda>c. P c \<and> Q c) xs) \<le> length (filter P xs)"
  by (induction xs) auto

lemma script_ratio_unfold:
  "script_ratio U text =
     (if length (filter (isalpha U) text) = 0 then 0
      else of_nat (length (filter is_devanagari_char text)) /
           of_nat (length (filter (isalpha U) text)))"
  by (cases "text") (simp_all add: script_ratio_def Let_def)

text \<open>
  Claim C3, as the code has it. The script ratio is the number of characters of the text
  in the Devanagari block, alphabetic or not, divided by the number of its alphabetic
  characters, and 0 when the text has no alphabetic character. When every Devanagari
  character of the text is alphabetic, that is the fraction of the alphabetic characters
  lying in the Devanagari block, and it is at most 1.
\<close>

theorem script_ratio_counts:
  "script_ratio U text =
     (if length (filter (isalpha U) text) = 0 then 0
      else of_nat (length (filter is_devanagari_char text)) /
           of_nat (length (filter (isalpha U) text))) \<and>
   ((\<forall>c\<in>set text. is_devanagari_char c \<longrightarrow> isalpha U c) \<longrightarrow>
      script_ratio U text = spec_script_ratio U text \<and> script_ratio U text \<le> 1)"
proof (intro conjI impI)
  show "script_ratio U text =
     (if length (filter (isalpha U) text) = 0 then 0
      else of_nat (length (filter is_devanagari_char text)) /
           of_nat (length (filter (isalpha U) text)))"
    by (rule script_ratio_unfold)
next
  assume a: "\<forall>c\<in>set text. is_devanagari_char c \<longrightarrow> isalpha U c"
  show eq: "script_ratio U text = spec_script_ratio U text"
    by (simp add: script_ratio_unfold spec_script_ratio_def Let_def filter_alpha_deva [OF a])
  have "length (filter is_devanagari_char text) \<le> length (filter (isalpha U) text)"
    using length_filter_conj_le [of "isalpha U" is_devanagari_char "text"]
    by (simp add: filter_alpha_deva [OF a])
  then show "script_ratio U text \<le> 1"
    by (simp add: script_ratio_unfold divide_le_eq)
qed

theorem script_ratio_counts_witness:
  "script_ratio deva_tables [97, 2325] = 1 / 2 \<and>
   script_ratio deva_tables [97, 2325] = spec_script_ratio deva_tables [97, 2325] \<and>
   script_ratio deva_tables [97, 2325] \<le> 1"
proof -
  have h: "\<forall>c\<in>set [97, 2325]. is_devanagari_char c \<longrightarrow> isalpha deva_tables c"
    by code_simp
  have v: "script_ratio deva_tables [97, 2325] = 1 / 2"
    by code_simp
  from script_ratio_counts [of deva_tables "[97, 2325]"] h
  have "script_ratio deva_tables [97, 2325] = spec_script_ratio deva_tables [97, 2325] \<and>
        script_ratio deva_tables [97, 2325] \<le> 1"
    by blast
  with v show ?thesis
    by (rule conjI)
qed

text \<open>
  Claim C3 as stated fails: in \<open>a\<close> followed by the Devanagari digit one (U+0967, not
  alphabetic) the digit counts, so the ratio is 1 where the fraction of alphabetic
  characters in the block is 0; with two such digits the ratio is 2.
\<close>

theorem devanagari_digits_raise_ratio:
  "script_ratio deva_tables [97, 2407] = 1 \<and>
   spec_script_ratio deva_tables [97, 2407] = 0 \<and>
   script_ratio deva_tables [97, 2407, 2408] = 2"
  by code_simp

text \<open>
  Claim C4. \<open>guess_lang\<close> answers \<open>hindi\<close> exactly when the script ratio is above 0.3,
  \<open>english\<close> exactly when it is below 0.05, and \<open>mixed\<close> exactly in between, both
  bounds included; so a ratio of exactly 0.3 or exactly 0.05 gives \<open>mixed\<close>, and the
  empty string gives \<open>english\<close>.
\<close>

theorem guess_lang_thresholds:
  "(guess_lang U text = Hindi \<longleftrightarrow> script_ratio U text > 3 / 10) \<and>
   (guess_lang U text = English \<longleftrightarrow> script_ratio U text < 1 / 20) \<and>
   (guess_lang U text = Mixed \<longleftrightarrow> 1 / 20 \<le> script_ratio U text \<and> script_ratio U text \<le> 3 / 10) \<and>
   (script_ratio U text = 3 / 10 \<longrightarrow> guess_lang U text = Mixed) \<and>
   (script_ratio U text = 1 / 20 \<longrightarrow> guess_lang U text = Mixed) \<and>
   guess_lang U [] = English"
  by (auto simp: guess_lang_def Let_def script_ratio_def)

theorem guess_lang_thresholds_witness:
  "script_ratio deva_tables (ustr ''abcdefg'' @ [2325, 2326, 2327]) = 3 / 10 \<and>
   guess_lang deva_tables (ustr ''abcdefg'' @ [2325, 2326, 2327]) = Mixed \<and>
   script_ratio deva_tables (ustr ''abcdefghijklmnopqrs'' @ [2325]) = 1 / 20 \<and>
   guess_lang deva_tables (ustr ''abcdefghijklmnopqrs'' @ [2325]) = Mixed"
proof -
  have a: "script_ratio deva_tables (ustr ''abcdefg'' @ [2325, 2326, 2327]) = 3 / 10"
    by code_simp
  have b: "script_ratio deva_tables (ustr ''abcdefghijklmnopqrs'' @ [2325]) = 1 / 20"
    by code_simp
  from a b
    guess_lang_thresholds [of deva_tables "ustr ''abcdefg'' @ [2325, 2326, 2327]"]
    guess_lang_thresholds [of deva_tables "ustr ''abcdefghijklmnopqrs'' @ [2325]"]
  show ?thesis
    by blast
qed

section \<open>Properties of the Line Reconstructor\<close>

subsection \<open>Building a line\<close>

lemma trunc_rat_div:
  assumes "n > 0"
  shows "trunc_rat (of_int s / of_nat n) = sgn s * (\<bar>s\<bar> div int n)"
proof (cases "s < 0")
  case True
  then have neg: "(of_int s / of_nat n :: rat) < 0"
    using assms by (simp add: divide_neg_pos)
  have "\<lfloor>- (of_int s / of_nat n :: rat)\<rfloor> = \<lfloor>(of_int (- s) / of_int (int n) :: rat)\<rfloor>"
    by simp
  also have "\<dots> = (- s) div int n"
    by (rule floor_divide_of_int_eq)
  finally show ?thesis
    using True neg by (simp add: trunc_rat_def)
next
  case False
  then have nn: "\<not> (of_int s / of_nat n :: rat) < 0"
    using assms by (simp add: divide_less_0_iff)
  have "\<lfloor>(of_int s / of_nat n :: rat)\<rfloor> = \<lfloor>(of_int s / of_int (int n) :: rat)\<rfloor>"
    by simp
  also have "\<dots> = s div int n"
    by (rule floor_divide_of_int_eq)
  finally show ?thesis
    using False nn by (cases "s = 0") (simp_all add: trunc_rat_def)
qed

lemma mean_conf_trunc:
  "mean_conf confs =
     (if confs = [] then None
      else Some (sgn (sum_list confs) * (\<bar>sum_list confs\<bar> div int (length confs))))"
  by (simp add: mean_conf_def trunc_rat_div)

lemma py_min_map: "xs \<noteq> [] \<Longrightarrow> \<exists>m. py_min (map f xs) = Inr m"
  by (cases xs) simp_all

lemma py_max_map: "xs \<noteq> [] \<Longrightarrow> \<exists>m. py_max (map f xs) = Inr m"
  by (cases xs) simp_all

lemma sort_key_nonempty: "xs \<noteq> [] \<Longrightarrow> sort_key f xs \<noteq> []"
  by (metis length_0_conv length_sort)

lemma line_of_words_Inr:
  assumes "line_of_words U ws = Inr l"
  shows "l_words l = sort_key w_left ws \<and> l_conf l = mean_conf (confs_of (l_words l))"
  using assms unfolding line_of_words_def Let_def
  by (auto simp: bind_res_Inr)

lemma line_of_words_total:
  assumes "ws \<noteq> []"
  shows "\<exists>l. line_of_words U ws = Inr l"
proof -
  let ?s = "sort_key w_left ws"
  have ne: "?s \<noteq> []" using assms by (rule sort_key_nonempty)
  from py_min_map [OF ne] py_max_map [OF ne]
  obtain a b c d where "py_min (map w_left ?s) = Inr a" "py_min (map w_top ?s) = Inr b"
    "py_max (map (\<lambda>w. w_left w + w_width w) ?s) = Inr c"
    "py_max (map (\<lambda>w. w_top w + w_height w) ?s) = Inr d"
    by metis
  then show ?thesis
    by (simp add: line_of_words_def Let_def bind_res_def)
qed

lemma traverse_total:
  assumes "\<forall>x\<in>set xs. \<exists>y. f x = Inr y"
  shows "\<exists>ys. traverse f xs = Inr ys \<and> list_all2 (\<lambda>x y. f x = Inr y) xs ys"
  using assms
proof (induction xs)
  case Nil
  then show ?case by simp
next
  case (Cons x xs)
  then obtain y ys where "f x = Inr y" "traverse f xs = Inr ys"
    "list_all2 (\<lambda>x y. f x = Inr y) xs ys"
    by auto
  then show ?case by (simp add: bind_res_def)
qed

subsection \<open>The groups of the metadata path\<close>

lemma map_of_setdefault_append:
  "map_of (setdefault_append k w d) =
     (map_of d)(k \<mapsto> (case map_of d k of None \<Rightarrow> [w] | Some ws \<Rightarrow> ws @ [w]))"
  by (induction k w d rule: setdefault_append.induct) (auto simp: fun_eq_iff)

lemma keys_setdefault_append:
  "map fst (setdefault_append k w d) =
     (if k \<in> set (map fst d) then map fst d else map fst d @ [k])"
  by (induction k w d rule: setdefault_append.induct) auto

lemma by_line_of_snoc:
  "by_line_of (ws @ [w]) = setdefault_append (key_of w) w (by_line_of ws)"
  by (simp add: by_line_of_def)

lemma by_line_of_keys:
  "distinct (map fst (by_line_of ws)) \<and> set (map fst (by_line_of ws)) = key_of ` set ws"
proof (induction ws rule: rev_induct)
  case Nil
  show ?case by (simp add: by_line_of_def)
next
  case (snoc w ws)
  then show ?case
    by (auto simp: by_line_of_snoc keys_setdefault_append)
qed

lemma by_line_of_lookup:
  "map_of (by_line_of ws) k =
     (if k \<in> key_of ` set ws then Some (filter (\<lambda>w. key_of w = k) ws) else None)"
proof (induction ws rule: rev_induct)
  case Nil
  show ?case by (simp add: by_line_of_def)
next
  case (snoc w ws)
  show ?case
  proof (cases "k = key_of w")
    case False
    with snoc show ?thesis
      by (simp add: by_line_of_snoc map_of_setdefault_append image_iff)
  next
    case True
    note k = True
    show ?thesis
    proof (cases "k \<in> key_of ` set ws")
      case True
      with snoc k show ?thesis
        by (simp add: by_line_of_snoc map_of_setdefault_append)
    next
      case False
      then have "filter (\<lambda>w. key_of w = k) ws = []"
        by (auto simp: filter_empty_conv)
      with False snoc k show ?thesis
        by (simp add: by_line_of_snoc map_of_setdefault_append)
    qed
  qed
qed

lemma sort_distinct_eq:
  fixes xs ys :: "'a::linorder list"
  assumes "distinct xs" "distinct ys" "set xs = set ys"
  shows "sort xs = sort ys"
  using assms
  by (intro sorted_distinct_set_unique) simp_all

lemma sorted_keys:
  "sort (map fst (by_line_of ws)) = sort (remdups (map key_of ws))"
  using by_line_of_keys [of ws]
  by (intro sort_distinct_eq) simp_all

lemma filter_key_nonempty: "k \<in> key_of ` set ws \<Longrightarrow> filter (\<lambda>w. key_of w = k) ws \<noteq> []"
  by (auto simp: filter_empty_conv)

lemma metadata_lines_spec:
  "\<exists>ls. metadata_lines U ws = Inr ls \<and>
        list_all2 (\<lambda>k l. line_of_words U (filter (\<lambda>w. key_of w = k) ws) = Inr l)
          (sort (remdups (map key_of ws))) ls"
proof -
  let ?f = "\<lambda>k. case map_of (by_line_of ws) k of
                       None \<Rightarrow> Inl KeyError
                     | Some g \<Rightarrow> line_of_words U g"
  let ?keys = "sort (remdups (map key_of ws))"
  have f: "?f k = line_of_words U (filter (\<lambda>w. key_of w = k) ws)" if "k \<in> set ?keys" for k
    using that by (simp add: by_line_of_lookup)
  have "\<forall>k\<in>set ?keys. \<exists>l. ?f k = Inr l"
  proof
    fix k assume k: "k \<in> set ?keys"
    then have "filter (\<lambda>w. key_of w = k) ws \<noteq> []"
      by (intro filter_key_nonempty) simp
    from line_of_words_total [OF this] f [OF k] show "\<exists>l. ?f k = Inr l"
      by simp
  qed
  from traverse_total [OF this] obtain ls where
    t: "traverse ?f ?keys = Inr ls" and a: "list_all2 (\<lambda>k l. ?f k = Inr l) ?keys ls"
    by blast
  from a have "list_all2 (\<lambda>k l. line_of_words U (filter (\<lambda>w. key_of w = k) ws) = Inr l) ?keys ls"
    by (rule list_all2_mono) (simp add: by_line_of_lookup split: if_splits)
  with t show ?thesis
    by (simp add: metadata_lines_def Let_def sorted_keys)
qed

subsection \<open>The groups of the clustering path, and both paths together\<close>

lemma place_word_nonempty:
  "\<forall>g\<in>set gs. g_words g \<noteq> [] \<Longrightarrow> \<forall>g\<in>set (place_word tol w gs). g_words g \<noteq> []"
  by (induction tol w gs rule: place_word.induct) (auto simp: Let_def)

lemma fold_place_word_nonempty:
  "\<forall>g\<in>set gs. g_words g \<noteq> [] \<Longrightarrow> \<forall>g\<in>set (fold (place_word tol) ws gs). g_words g \<noteq> []"
proof (induction ws arbitrary: gs)
  case Nil
  then show ?case by simp
next
  case (Cons w ws)
  from Cons.prems have "\<forall>g\<in>set (place_word tol w gs). g_words g \<noteq> []"
    by (rule place_word_nonempty)
  from Cons.IH [OF this] show ?case by simp
qed

lemma geometric_lines_spec:
  "\<exists>ls. geometric_lines U y_tol ws = Inr ls \<and>
        list_all2 (\<lambda>g l. line_of_words U (g_words g) = Inr l)
          (fold (place_word (median_h (sort_key w_top ws) * y_tol)) (sort_key w_top ws) []) ls"
proof -
  let ?gs = "fold (place_word (median_h (sort_key w_top ws) * y_tol)) (sort_key w_top ws) []"
  have "\<forall>g\<in>set ?gs. g_words g \<noteq> []"
    by (rule fold_place_word_nonempty) simp
  then have "\<forall>g\<in>set ?gs. \<exists>l. line_of_words U (g_words g) = Inr l"
    using line_of_words_total by blast
  from traverse_total [OF this] show ?thesis
    by (simp add: geometric_lines_def Let_def)
qed

lemma list_all2_set_right:
  assumes "list_all2 P xs ys" "y \<in> set ys"
  shows "\<exists>x\<in>set xs. P x y"
  using assms by (induction rule: list_all2_induct) auto

lemma place_word_count:
  "sum_list (map (\<lambda>g. length (g_words g)) (place_word tol w gs))
     = Suc (sum_list (map (\<lambda>g. length (g_words g)) gs))"
  by (induction tol w gs rule: place_word.induct) (simp_all add: Let_def)

lemma place_word_members:
  "(\<Union>g\<in>set (place_word tol w gs). set (g_words g)) = insert w (\<Union>g\<in>set gs. set (g_words g))"
  by (induction tol w gs rule: place_word.induct) (auto simp: Let_def)

lemma fold_place_word_count:
  "sum_list (map (\<lambda>g. length (g_words g)) (fold (place_word tol) ws gs))
     = length ws + sum_list (map (\<lambda>g. length (g_words g)) gs)"
  by (induction ws arbitrary: gs) (simp_all add: place_word_count)

lemma fold_place_word_members:
  "(\<Union>g\<in>set (fold (place_word tol) ws gs). set (g_words g))
     = set ws \<union> (\<Union>g\<in>set gs. set (g_words g))"
  by (induction ws arbitrary: gs) (simp_all add: place_word_members)

lemma cluster_within_page:
  assumes "g \<in> set (fold (place_word tol) (sort_key w_top ws) [])"
  shows "set (g_words g) \<subseteq> set ws \<and> length (g_words g) \<le> length ws"
proof -
  let ?gs = "fold (place_word tol) (sort_key w_top ws) []"
  from assms have "set (g_words g) \<subseteq> (\<Union>g\<in>set ?gs. set (g_words g))"
    by blast
  then have a: "set (g_words g) \<subseteq> set ws"
    by (simp add: fold_place_word_members)
  from assms have "length (g_words g) \<in> set (map (\<lambda>g. length (g_words g)) ?gs)"
    by simp
  then have "length (g_words g) \<le> sum_list (map (\<lambda>g. length (g_words g)) ?gs)"
    by (simp only: member_le_sum_list)
  then have "length (g_words g) \<le> length ws"
    by (simp add: fold_place_word_count)
  with a show ?thesis ..
qed

lemma lines_within_page:
  "\<exists>ls. group_words_to_lines U page_words y_tol = Inr ls \<and>
        (\<forall>l\<in>set ls. \<exists>ws. line_of_words U ws = Inr l \<and>
                            set ws \<subseteq> set page_words \<and> length ws \<le> length page_words)"
proof (cases "has_line_num page_words")
  case True
  from metadata_lines_spec [of U page_words] obtain ls where
    m: "metadata_lines U page_words = Inr ls" and
    a: "list_all2 (\<lambda>k l. line_of_words U (filter (\<lambda>w. key_of w = k) page_words) = Inr l)
          (sort (remdups (map key_of page_words))) ls"
    by blast
  have "\<exists>ws. line_of_words U ws = Inr l \<and>
             set ws \<subseteq> set page_words \<and> length ws \<le> length page_words"
    if "l \<in> set ls" for l
  proof -
    from list_all2_set_right [OF a that] obtain k where
      "line_of_words U (filter (\<lambda>w. key_of w = k) page_words) = Inr l"
      by blast
    then show ?thesis
      by (intro exI [of _ "filter (\<lambda>w. key_of w = k) page_words"]) simp
  qed
  with m True show ?thesis
    by (simp add: group_words_to_lines_def)
next
  case False
  let ?gs = "fold (place_word (median_h (sort_key w_top page_words) * y_tol))
               (sort_key w_top page_words) []"
  from geometric_lines_spec [of U y_tol page_words] obtain ls where
    m: "geometric_lines U y_tol page_words = Inr ls" and
    a: "list_all2 (\<lambda>g l. line_of_words U (g_words g) = Inr l) ?gs ls"
    by blast
  have "\<exists>ws. line_of_words U ws = Inr l \<and>
             set ws \<subseteq> set page_words \<and> length ws \<le> length page_words"
    if "l \<in> set ls" for l
  proof -
    from list_all2_set_right [OF a that] obtain g where
      g: "g \<in> set ?gs" "line_of_words U (g_words g) = Inr l"
      by blast
    from cluster_within_page [OF g(1)] g(2) show ?thesis
      by (intro exI [of _ "g_words g"]) simp
  qed
  with m False show ?thesis
    by (simp add: group_words_to_lines_def)
qed

lemma abs_sum_list_bound:
  fixes cs :: "int list"
  assumes "\<forall>c\<in>set cs. \<bar>c\<bar> < b"
  shows "\<bar>sum_list cs\<bar> \<le> int (length cs) * b"
  using assms
proof (induction cs)
  case Nil
  then show ?case by simp
next
  case (Cons c cs)
  then have "\<bar>sum_list cs\<bar> \<le> int (length cs) * b" "\<bar>c\<bar> < b"
    by simp_all
  then show ?case
    by (simp add: algebra_simps)
qed

lemma confs_within_range:
  assumes r: "in_float_range page_words"
    and s: "set ws \<subseteq> set page_words" and n: "length ws \<le> length page_words"
  shows "\<bar>sum_list (confs_of ws)\<bar> + int (length (confs_of ws)) < 2 ^ 53"
proof -
  have len: "length (confs_of ws) \<le> length ws"
    by (simp add: confs_of_def map_filter_def)
  with n r have l20: "int (length (confs_of ws)) < 2 ^ 20"
    by (simp add: in_float_range_def)
  have "\<forall>c\<in>set (confs_of ws). \<bar>c\<bar> < 2 ^ 31"
  proof
    fix c assume "c \<in> set (confs_of ws)"
    then obtain w where w: "w \<in> set ws" "w_conf w = Some c"
      by (auto simp: confs_of_def map_filter_def)
    with s have "w \<in> set page_words" by blast
    with r w(2) show "\<bar>c\<bar> < 2 ^ 31"
      by (auto simp: in_float_range_def list_all_iff)
  qed
  from abs_sum_list_bound [OF this]
  have "\<bar>sum_list (confs_of ws)\<bar> \<le> int (length (confs_of ws)) * 2 ^ 31" .
  also from l20 have "\<dots> \<le> 2 ^ 20 * 2 ^ 31"
    by (intro mult_right_mono) simp_all
  finally have "\<bar>sum_list (confs_of ws)\<bar> \<le> 2 ^ 51"
    by simp
  with l20 show ?thesis
    by simp
qed

lemma confs_of_empty_iff: "confs_of ws = [] \<longleftrightarrow> (\<forall>w\<in>set ws. w_conf w = None)"
  by (auto simp: confs_of_def map_filter_def filter_empty_conv)

text \<open>
  Claim C5, as the code has it, on a page inside \<open>in_float_range\<close> (fewer than
  \<open>2^20\<close> words; tops, heights and confidences below \<open>2^31\<close> in magnitude) and with
  the tolerance factor 0.5 of \<open>main\<close>. \<open>group_words_to_lines\<close> returns, on the
  metadata path and on the clustering path, and in every line it returns the confidence
  is absent exactly when no word of the line has a confidence; otherwise it is the mean of
  the words' confidences with the fractional part dropped, that is rounded toward zero:
  the sign of the sum times the floor of its magnitude over the count. When the sum is not
  negative this is the floor of the mean. The sum and the count of every line stay in the
  range where the float quotient of the code has the integer part of the exact one.
\<close>

theorem line_confidence:
  assumes "in_float_range page_words"
  shows "\<exists>ls. group_words_to_lines U page_words (1 / 2) = Inr ls \<and>
     (\<forall>l\<in>set ls.
        \<bar>sum_list (confs_of (l_words l))\<bar> + int (length (confs_of (l_words l))) < 2 ^ 53 \<and>
        (confs_of (l_words l) = [] \<longleftrightarrow> (\<forall>w\<in>set (l_words l). w_conf w = None)) \<and>
        l_conf l =
          (if confs_of (l_words l) = [] then None
           else Some (sgn (sum_list (confs_of (l_words l))) *
                      (\<bar>sum_list (confs_of (l_words l))\<bar> div int (length (confs_of (l_words l)))))) \<and>
        (confs_of (l_words l) \<noteq> [] \<and> 0 \<le> sum_list (confs_of (l_words l)) \<longrightarrow>
           l_conf l = Some (sum_list (confs_of (l_words l)) div int (length (confs_of (l_words l))))))"
proof -
  from lines_within_page [of U page_words "1 / 2"] obtain ls where
    g: "group_words_to_lines U page_words (1 / 2) = Inr ls" and
    b: "\<forall>l\<in>set ls. \<exists>ws. line_of_words U ws = Inr l \<and>
                            set ws \<subseteq> set page_words \<and> length ws \<le> length page_words"
    by blast
  have "\<bar>sum_list (confs_of (l_words l))\<bar> + int (length (confs_of (l_words l))) < 2 ^ 53 \<and>
        (confs_of (l_words l) = [] \<longleftrightarrow> (\<forall>w\<in>set (l_words l). w_conf w = None)) \<and>
        l_conf l =
          (if confs_of (l_words l) = [] then None
           else Some (sgn (sum_list (confs_of (l_words l))) *
                      (\<bar>sum_list (confs_of (l_words l))\<bar> div int (length (confs_of (l_words l)))))) \<and>
        (confs_of (l_words l) \<noteq> [] \<and> 0 \<le> sum_list (confs_of (l_words l)) \<longrightarrow>
           l_conf l = Some (sum_list (confs_of (l_words l)) div int (length (confs_of (l_words l)))))"
    if "l \<in> set ls" for l
  proof -
    from b that obtain ws where ws: "line_of_words U ws = Inr l"
      "set ws \<subseteq> set page_words" "length ws \<le> length page_words"
      by blast
    from ws(1) have w: "l_words l = sort_key w_left ws"
      and c: "l_conf l = mean_conf (confs_of (l_words l))"
      by (simp_all add: line_of_words_Inr)
    from w ws(2,3) have "set (l_words l) \<subseteq> set page_words" "length (l_words l) \<le> length page_words"
      by simp_all
    from confs_within_range [OF assms this]
    have c1: "\<bar>sum_list (confs_of (l_words l))\<bar> + int (length (confs_of (l_words l))) < 2 ^ 53" .
    have pos: "sgn s * (\<bar>s\<bar> div n) = s div n" if "0 \<le> s" for s n :: int
      using that by (cases "s = 0") simp_all
    have c2: "l_conf l =
          (if confs_of (l_words l) = [] then None
           else Some (sgn (sum_list (confs_of (l_words l))) *
                      (\<bar>sum_list (confs_of (l_words l))\<bar> div int (length (confs_of (l_words l))))))"
      by (simp add: c mean_conf_trunc)
    have c3: "l_conf l = Some (sum_list (confs_of (l_words l)) div int (length (confs_of (l_words l))))"
      if "confs_of (l_words l) \<noteq> []" "0 \<le> sum_list (confs_of (l_words l))"
      using that c2 pos [OF that(2)] by simp
    from c1 c2 c3 confs_of_empty_iff [of "l_words l"] show ?thesis
      by blast
  qed
  with g show ?thesis by blast
qed

theorem line_confidence_witness:
  "in_float_range
     [sample_word ''is'' (Some 96) 40 10 0, sample_word ''What'' (Some 91) 10 11 0,
      sample_word ''?'' None 60 10 0] \<and>
   map_sum id (map l_conf)
     (group_words_to_lines deva_tables
        [sample_word ''is'' (Some 96) 40 10 0, sample_word ''What'' (Some 91) 10 11 0,
         sample_word ''?'' None 60 10 0] (1 / 2)) = Inr [Some 93] \<and>
   map_sum id (map (confs_of \<circ> l_words))
     (group_words_to_lines deva_tables
        [sample_word ''is'' (Some 96) 40 10 0, sample_word ''What'' (Some 91) 10 11 0,
         sample_word ''?'' None 60 10 0] (1 / 2)) = Inr [[91, 96]]"
proof -
  let ?ws = "[sample_word ''is'' (Some 96) 40 10 0, sample_word ''What'' (Some 91) 10 11 0,
         sample_word ''?'' None 60 10 0]"
  have h: "in_float_range ?ws"
    by (simp add: in_float_range_def sample_word_def)
  from line_confidence [OF h, of deva_tables] obtain ls where
    g: "group_words_to_lines deva_tables ?ws (1 / 2) = Inr ls" and
    p: "\<forall>l\<in>set ls. confs_of (l_words l) \<noteq> [] \<and> 0 \<le> sum_list (confs_of (l_words l)) \<longrightarrow>
           l_conf l = Some (sum_list (confs_of (l_words l)) div int (length (confs_of (l_words l))))"
    by blast
  have w: "map_sum id (map (confs_of \<circ> l_words)) (group_words_to_lines deva_tables ?ws (1 / 2))
            = Inr [[91, 96]]"
    by code_simp
  with g have c: "map (confs_of \<circ> l_words) ls = [[91, 96]]"
    by simp
  then obtain l where l: "ls = [l]" "confs_of (l_words l) = [91, 96]"
    by auto
  with p have "l_conf l = Some ((91 + 96) div 2)"
    by simp
  then have "l_conf l = Some 93"
    by simp
  with l g have "map_sum id (map l_conf) (group_words_to_lines deva_tables ?ws (1 / 2)) = Inr [Some 93]"
    by simp
  with h w show ?thesis
    by blast
qed

text \<open>
  Claim C5 as stated fails for a negative mean: two words of one line with confidences
  -1 and 0 have the mean -0.5, whose floor is -1, and the line gets 0, on the clustering
  path and on the metadata path alike.
\<close>

theorem negative_mean_rounds_toward_zero:
  "map_sum id (map l_conf)
     (group_words_to_lines deva_tables
        [sample_word ''x'' (Some (- 1)) 10 10 0, sample_word ''y'' (Some 0) 40 10 0] (1 / 2))
     = Inr [Some 0] \<and>
   map_sum id (map l_conf)
     (group_words_to_lines deva_tables
        [sample_word ''x'' (Some (- 1)) 10 10 1, sample_word ''y'' (Some 0) 40 10 1] (1 / 2))
     = Inr [Some 0] \<and>
   \<lfloor>(of_int (- 1 + 0) / of_nat 2 :: rat)\<rfloor> = - 1"
  by code_simp



section \<open>Properties of the Candidate Segmenter\<close>

subsection \<open>The numbered branch\<close>

lemma numbered_scan_spec:
  assumes "j \<le> length lines"
  shows "\<exists>j'. numbered_scan U lines line j bs
               = (bs @ map (\<lambda>k. block_of U (lines ! k)) [j..<j'], j') \<and>
              j \<le> j' \<and> j' \<le> length lines \<and>
              (\<forall>k. j \<le> k \<and> k < j' \<longrightarrow>
                   \<not> is_numbered U (lines ! k) \<and>
                   \<not> gap_exceeded (if k = j then line else lines ! (k - 1)) (lines ! k)) \<and>
              (j' < length lines \<longrightarrow>
                   is_numbered U (lines ! j') \<or>
                   gap_exceeded (if j' = j then line else lines ! (j' - 1)) (lines ! j'))"
  using assms
proof (induction U lines line j bs rule: numbered_scan.induct)
  case (1 U lines line i blocks)
  show ?case
  proof (cases "i < length lines \<and> \<not> is_numbered U (lines ! i) \<and> \<not> gap_exceeded line (lines ! i)")
    case False
    then have "numbered_scan U lines line i blocks = (blocks, i)"
      by (auto simp: numbered_scan.simps [of U lines line i] Let_def)
    with False "1.prems" show ?thesis
      by (intro exI [of _ i]) auto
  next
    case True
    then have step: "numbered_scan U lines line i blocks
        = numbered_scan U lines (lines ! i) (i + 1) (blocks @ [block_of U (lines ! i)])"
      by (simp add: numbered_scan.simps [of U lines line i] Let_def)
    from True have "i + 1 \<le> length lines" by simp
    from "1.IH" [OF _ refl _ _ this] True obtain j' where
      r: "numbered_scan U lines (lines ! i) (i + 1) (blocks @ [block_of U (lines ! i)])
            = ((blocks @ [block_of U (lines ! i)]) @ map (\<lambda>k. block_of U (lines ! k)) [i + 1..<j'], j')"
      and le: "i + 1 \<le> j'" "j' \<le> length lines"
      and inner: "\<forall>k. i + 1 \<le> k \<and> k < j' \<longrightarrow>
                   \<not> is_numbered U (lines ! k) \<and>
                   \<not> gap_exceeded (if k = i + 1 then lines ! i else lines ! (k - 1)) (lines ! k)"
      and stop: "j' < length lines \<longrightarrow>
                   is_numbered U (lines ! j') \<or>
                   gap_exceeded (if j' = i + 1 then lines ! i else lines ! (j' - 1)) (lines ! j')"
      by blast
    from le have upt: "[i..<j'] = i # [i + 1..<j']"
      by (simp add: upt_conv_Cons)
    have a: "numbered_scan U lines line i blocks
               = (blocks @ map (\<lambda>k. block_of U (lines ! k)) [i..<j'], j')"
      unfolding step r upt by simp
    have b: "\<not> is_numbered U (lines ! k) \<and>
             \<not> gap_exceeded (if k = i then line else lines ! (k - 1)) (lines ! k)"
      if "i \<le> k \<and> k < j'" for k
    proof (cases "k = i")
      case True
      with \<open>i < length lines \<and> \<not> is_numbered U (lines ! i) \<and> \<not> gap_exceeded line (lines ! i)\<close>
      show ?thesis by simp
    next
      case False
      with that have "i + 1 \<le> k \<and> k < j'" by simp
      with inner have "\<not> is_numbered U (lines ! k) \<and>
                   \<not> gap_exceeded (if k = i + 1 then lines ! i else lines ! (k - 1)) (lines ! k)"
        by blast
      with False show ?thesis by (cases "k = i + 1") simp_all
    qed
    have c: "j' < length lines \<longrightarrow>
                   is_numbered U (lines ! j') \<or>
                   gap_exceeded (if j' = i then line else lines ! (j' - 1)) (lines ! j')"
      using stop le by (cases "j' = i + 1") auto
    from a b c le show ?thesis
      by (intro exI [of _ j']) auto
  qed
qed

lemma is_numbered_iff:
  "is_numbered U line \<longleftrightarrow> (\<exists>q rest. detect_question_number U (l_text line) = (Some q, rest))"
  by (cases "detect_question_number U (l_text line)") (auto simp: is_numbered_def)

lemma group_from_step:
  assumes "i < length lines" "segment_step U lines i = (c, i')"
  shows "group_from U lines i = (case c of None \<Rightarrow> [] | Some x \<Rightarrow> [x]) @ group_from U lines i'"
  using assms by (simp add: group_from.simps [of U lines i])

lemma segment_step_numbered:
  assumes "i < length lines"
    and "detect_question_number U (l_text (lines ! i)) = (Some q, rest)"
  shows "\<exists>i' blocks.
           segment_step U lines i
             = (Some \<lparr> c_qnum = Some q, c_blocks = blocks, c_conf_avg = avg_conf blocks \<rparr>, i') \<and>
           i < i' \<and> i' \<le> length lines \<and>
           blocks = \<lparr> k_lang = guess_lang U (l_text (lines ! i)),
                      k_text = (if rest = [] then l_text (lines ! i) else rest),
                      k_bbox = bbox_of_line (lines ! i), k_conf = l_conf (lines ! i) \<rparr>
                    # map (\<lambda>k. block_of U (lines ! k)) [i + 1..<i'] \<and>
           (\<forall>k. i < k \<and> k < i' \<longrightarrow>
                \<not> is_numbered U (lines ! k) \<and> \<not> gap_exceeded (lines ! (k - 1)) (lines ! k)) \<and>
           (i' < length lines \<longrightarrow>
                is_numbered U (lines ! i') \<or> gap_exceeded (lines ! (i' - 1)) (lines ! i'))"
proof -
  let ?b = "\<lparr> k_lang = guess_lang U (l_text (lines ! i)),
              k_text = (if rest = [] then l_text (lines ! i) else rest),
              k_bbox = bbox_of_line (lines ! i), k_conf = l_conf (lines ! i) \<rparr>"
  from assms(1) have "i + 1 \<le> length lines" by simp
  from numbered_scan_spec [OF this, of U "lines ! i" "[?b]"] obtain j' where
    r: "numbered_scan U lines (lines ! i) (i + 1) [?b]
          = ([?b] @ map (\<lambda>k. block_of U (lines ! k)) [i + 1..<j'], j')"
    and le: "i + 1 \<le> j'" "j' \<le> length lines"
    and inner: "\<forall>k. i + 1 \<le> k \<and> k < j' \<longrightarrow>
                   \<not> is_numbered U (lines ! k) \<and>
                   \<not> gap_exceeded (if k = i + 1 then lines ! i else lines ! (k - 1)) (lines ! k)"
    and stop: "j' < length lines \<longrightarrow>
                   is_numbered U (lines ! j') \<or>
                   gap_exceeded (if j' = i + 1 then lines ! i else lines ! (j' - 1)) (lines ! j')"
    by blast
  let ?blocks = "?b # map (\<lambda>k. block_of U (lines ! k)) [i + 1..<j']"
  have s: "segment_step U lines i
             = (Some \<lparr> c_qnum = Some q, c_blocks = ?blocks, c_conf_avg = avg_conf ?blocks \<rparr>, j')"
    unfolding segment_step_def Let_def assms(2) prod.case option.case r by simp
  have a: "\<not> is_numbered U (lines ! k) \<and> \<not> gap_exceeded (lines ! (k - 1)) (lines ! k)"
    if "i < k \<and> k < j'" for k
  proof -
    from that have "i + 1 \<le> k \<and> k < j'" by simp
    with inner have "\<not> is_numbered U (lines ! k) \<and>
                   \<not> gap_exceeded (if k = i + 1 then lines ! i else lines ! (k - 1)) (lines ! k)"
      by blast
    then show ?thesis by (cases "k = i + 1") simp_all
  qed
  have b: "j' < length lines \<longrightarrow>
             is_numbered U (lines ! j') \<or> gap_exceeded (lines ! (j' - 1)) (lines ! j')"
    using stop by (cases "j' = i + 1") simp_all
  from s a b le show ?thesis
    by (intro exI [of _ j'] exI [of _ ?blocks]) auto
qed

lemma gap_exceeded_unfold:
  "gap_exceeded a b \<longleftrightarrow>
     l_top b - l_bottom a > 6 * (if l_bottom a - l_top a = 0 then 1 else l_bottom a - l_top a)"
  by (simp add: gap_exceeded_def line_height_def mult.commute)

lemma gap_exceeded_nonneg_height:
  "l_top a \<le> l_bottom a \<Longrightarrow>
     gap_exceeded a b \<longleftrightarrow>
       l_top b - l_bottom a > 6 * (if l_bottom a - l_top a \<le> 0 then 1 else l_bottom a - l_top a)"
  by (auto simp: gap_exceeded_unfold)

text \<open>
  Claim C7, as the code has it. At a line that matches the numbered-question pattern the
  segmenter opens a candidate with that number and appends the following lines, in
  order, up to a position \<open>i'\<close>, where the next pass resumes. Every appended line
  neither matches a question number nor lies further below the bottom of the line
  consumed before it than 6 times that line's height, a height of 0 counting as 1 (a
  negative height is taken as it is). The scan stops at the end of the page, or before
  the first line that matches a question number or lies further below than that; this
  line is not consumed.
\<close>

theorem numbered_candidate_extent:
  assumes "i < length lines"
    and "detect_question_number U (l_text (lines ! i)) = (Some q, rest)"
  shows "\<exists>i' blocks.
           segment_step U lines i
             = (Some \<lparr> c_qnum = Some q, c_blocks = blocks, c_conf_avg = avg_conf blocks \<rparr>, i') \<and>
           group_from U lines i
             = \<lparr> c_qnum = Some q, c_blocks = blocks, c_conf_avg = avg_conf blocks \<rparr>
               # group_from U lines i' \<and>
           i < i' \<and> i' \<le> length lines \<and>
           tl blocks = map (\<lambda>k. block_of U (lines ! k)) [i + 1..<i'] \<and>
           (\<forall>k. i < k \<and> k < i' \<longrightarrow>
                \<not> is_numbered U (lines ! k) \<and>
                \<not> l_top (lines ! k) - l_bottom (lines ! (k - 1))
                   > 6 * (if l_bottom (lines ! (k - 1)) - l_top (lines ! (k - 1)) = 0 then 1
                          else l_bottom (lines ! (k - 1)) - l_top (lines ! (k - 1)))) \<and>
           (i' < length lines \<longrightarrow>
                is_numbered U (lines ! i') \<or>
                l_top (lines ! i') - l_bottom (lines ! (i' - 1))
                   > 6 * (if l_bottom (lines ! (i' - 1)) - l_top (lines ! (i' - 1)) = 0 then 1
                          else l_bottom (lines ! (i' - 1)) - l_top (lines ! (i' - 1))))"
proof -
  from segment_step_numbered [OF assms] obtain i' blocks where
    s: "segment_step U lines i
             = (Some \<lparr> c_qnum = Some q, c_blocks = blocks, c_conf_avg = avg_conf blocks \<rparr>, i')"
    and le: "i < i'" "i' \<le> length lines"
    and bl: "blocks = \<lparr> k_lang = guess_lang U (l_text (lines ! i)),
                      k_text = (if rest = [] then l_text (lines ! i) else rest),
                      k_bbox = bbox_of_line (lines ! i), k_conf = l_conf (lines ! i) \<rparr>
                    # map (\<lambda>k. block_of U (lines ! k)) [i + 1..<i']"
    and inner: "\<forall>k. i < k \<and> k < i' \<longrightarrow>
                \<not> is_numbered U (lines ! k) \<and> \<not> gap_exceeded (lines ! (k - 1)) (lines ! k)"
    and stop: "i' < length lines \<longrightarrow>
                is_numbered U (lines ! i') \<or> gap_exceeded (lines ! (i' - 1)) (lines ! i')"
    by blast
  from group_from_step [OF assms(1) s]
  have g: "group_from U lines i
             = \<lparr> c_qnum = Some q, c_blocks = blocks, c_conf_avg = avg_conf blocks \<rparr>
               # group_from U lines i'"
    by simp
  from bl have t: "tl blocks = map (\<lambda>k. block_of U (lines ! k)) [i + 1..<i']"
    by simp
  from s g le t inner stop show ?thesis
    unfolding gap_exceeded_unfold by blast
qed

theorem numbered_candidate_extent_witness:
  "0 < length [sample_line ''Q1. What is'' 0 10, sample_line ''the answer'' 15 25,
               sample_line ''far below'' 200 210] \<and>
   detect_question_number deva_tables
     (l_text ([sample_line ''Q1. What is'' 0 10, sample_line ''the answer'' 15 25,
               sample_line ''far below'' 200 210] ! 0)) = (Some (ustr ''1''), ustr ''What is'') \<and>
   (\<exists>blocks.
      segment_step deva_tables
        [sample_line ''Q1. What is'' 0 10, sample_line ''the answer'' 15 25,
         sample_line ''far below'' 200 210] 0
        = (Some \<lparr> c_qnum = Some (ustr ''1''), c_blocks = blocks, c_conf_avg = avg_conf blocks \<rparr>, 2) \<and>
      tl blocks = [block_of deva_tables (sample_line ''the answer'' 15 25)])"
proof -
  let ?L = "[sample_line ''Q1. What is'' 0 10, sample_line ''the answer'' 15 25,
             sample_line ''far below'' 200 210]"
  have h1: "0 < length ?L"
    by simp
  have h2: "detect_question_number deva_tables (l_text (?L ! 0)) = (Some (ustr ''1''), ustr ''What is'')"
    by code_simp
  have e: "snd (segment_step deva_tables ?L 0) = 2"
    by code_simp
  from numbered_candidate_extent [OF h1 h2] obtain i' blocks where
    s: "segment_step deva_tables ?L 0
          = (Some \<lparr> c_qnum = Some (ustr ''1''), c_blocks = blocks, c_conf_avg = avg_conf blocks \<rparr>, i')"
    and t: "tl blocks = map (\<lambda>k. block_of deva_tables (?L ! k)) [0 + 1..<i']"
    by blast
  from s e have i': "i' = 2"
    by simp
  have "[0 + 1..<2] = [1::nat]"
    by (simp add: upt_conv_Cons)
  with t i' have "tl blocks = [block_of deva_tables (sample_line ''the answer'' 15 25)]"
    by simp
  with s i' h1 h2 show ?thesis
    by blast
qed

text \<open>
  Claim C7 as stated fails for a negative height. A line with top 10 and bottom 5 has
  the height -5 (the Line Reconstructor returns such a line for a word of height -5),
  so the limit is -30 and the next line, 3 below, is left out; with the height counted
  as 1 the limit would be 6 and the line would be appended.
\<close>

theorem negative_height_is_not_one:
  "snd (segment_step deva_tables [sample_line ''1. x'' 10 5, sample_line ''abc'' 8 9] 0) = 1 \<and>
   \<not> is_numbered deva_tables (sample_line ''abc'' 8 9) \<and>
   \<not> l_top (sample_line ''abc'' 8 9) - l_bottom (sample_line ''1. x'' 10 5)
       > 6 * (if l_bottom (sample_line ''1. x'' 10 5) - l_top (sample_line ''1. x'' 10 5) \<le> 0 then 1
              else l_bottom (sample_line ''1. x'' 10 5) - l_top (sample_line ''1. x'' 10 5)) \<and>
   map_sum id (map (\<lambda>l. (l_top l, l_bottom l)))
     (group_words_to_lines deva_tables [(sample_word ''1.'' None 0 10 0) \<lparr> w_height := - 5 \<rparr>] (1 / 2))
     = Inr [(10, 5)]"
  by code_simp

text \<open>
  Claim C9. Whenever the line at the scan position matches the numbered-question
  pattern, the pass emits a candidate with that question number, whatever the length of
  its text: the first block holds the remainder after the number, or the whole line
  when the remainder is empty, so a line of digits alone yields a candidate.
\<close>

theorem numbered_line_always_emits:
  assumes "i < length lines"
    and "detect_question_number U (l_text (lines ! i)) = (Some q, rest)"
  shows "\<exists>c i'. segment_step U lines i = (Some c, i') \<and>
                group_from U lines i = c # group_from U lines i' \<and>
                c_qnum c = Some q \<and> c_blocks c \<noteq> [] \<and>
                k_text (hd (c_blocks c)) = (if rest = [] then l_text (lines ! i) else rest)"
proof -
  from segment_step_numbered [OF assms] obtain i' blocks where
    s: "segment_step U lines i
             = (Some \<lparr> c_qnum = Some q, c_blocks = blocks, c_conf_avg = avg_conf blocks \<rparr>, i')"
    and bl: "blocks = \<lparr> k_lang = guess_lang U (l_text (lines ! i)),
                      k_text = (if rest = [] then l_text (lines ! i) else rest),
                      k_bbox = bbox_of_line (lines ! i), k_conf = l_conf (lines ! i) \<rparr>
                    # map (\<lambda>k. block_of U (lines ! k)) [i + 1..<i']"
    by blast
  let ?c = "\<lparr> c_qnum = Some q, c_blocks = blocks, c_conf_avg = avg_conf blocks \<rparr>"
  from group_from_step [OF assms(1) s] have g: "group_from U lines i = ?c # group_from U lines i'"
    by simp
  from bl have "c_blocks ?c \<noteq> []"
    "k_text (hd (c_blocks ?c)) = (if rest = [] then l_text (lines ! i) else rest)"
    by simp_all
  with s g show ?thesis
    by (intro exI [of _ ?c] exI [of _ i']) simp
qed

theorem numbered_line_always_emits_witness:
  "0 < length [sample_line ''12'' 0 10] \<and>
   detect_question_number deva_tables (l_text ([sample_line ''12'' 0 10] ! 0))
     = (Some (ustr ''12''), []) \<and>
   (\<exists>c i'. segment_step deva_tables [sample_line ''12'' 0 10] 0 = (Some c, i') \<and>
            group_from deva_tables [sample_line ''12'' 0 10] 0
              = c # group_from deva_tables [sample_line ''12'' 0 10] i' \<and>
            c_qnum c = Some (ustr ''12'') \<and> c_blocks c \<noteq> [] \<and>
            k_text (hd (c_blocks c)) = ustr ''12'')"
proof -
  let ?L = "[sample_line ''12'' 0 10]"
  have h1: "0 < length ?L"
    by simp
  have h2: "detect_question_number deva_tables (l_text (?L ! 0)) = (Some (ustr ''12''), [])"
    by code_simp
  have t: "l_text (?L ! 0) = ustr ''12''"
    by (simp add: sample_line_def)
  from numbered_line_always_emits [OF h1 h2] t h1 h2 show ?thesis
    by simp
qed

subsection \<open>The unnumbered branch\<close>

lemma chunk_text_Nil: "chunk_text U [] = []"
  by (simp add: chunk_text_def strip_def lstrip_def rstrip_def)

lemma segment_step_unnumbered:
  assumes "\<not> is_numbered U (lines ! i)"
  shows "segment_step U lines i =
           (case chunk_scan U lines i i [] of
              (blocks, j) \<Rightarrow>
                if length (chunk_text U blocks) > 10 then
                  (Some \<lparr> c_qnum = None, c_blocks = blocks, c_conf_avg = avg_conf blocks \<rparr>, j)
                else (None, i + 1))"
proof (cases "detect_question_number U (l_text (lines ! i))")
  case (Pair q rest)
  with assms have "q = None" by (simp add: is_numbered_def)
  with Pair show ?thesis by (simp add: segment_step_def Let_def)
qed

lemma segment_step_emits:
  assumes "i < length lines" "segment_step U lines i = (Some c, i')"
  shows "c_blocks c \<noteq> [] \<and> (c_qnum c = None \<longrightarrow> 10 < length (chunk_text U (c_blocks c)))"
proof (cases "is_numbered U (lines ! i)")
  case True
  then obtain q rest where "detect_question_number U (l_text (lines ! i)) = (Some q, rest)"
    by (auto simp: is_numbered_iff)
  from segment_step_numbered [OF assms(1) this] assms(2) show ?thesis
    by auto
next
  case False
  obtain blocks j where cs: "chunk_scan U lines i i [] = (blocks, j)"
    by (cases "chunk_scan U lines i i []") blast
  from assms(2) have long: "10 < length (chunk_text U blocks)" and c: "c_blocks c = blocks"
    unfolding segment_step_unnumbered [OF False] cs
    by (auto split: if_splits)
  from long have "blocks \<noteq> []"
    by (auto simp: chunk_text_Nil)
  with long c show ?thesis by simp
qed

lemma group_from_emits:
  "\<forall>c\<in>set (group_from U lines i).
      c_blocks c \<noteq> [] \<and> (c_qnum c = None \<longrightarrow> 10 < length (chunk_text U (c_blocks c)))"
proof (induction U lines i rule: group_from.induct)
  case (1 U lines i)
  show ?case
  proof (cases "i < length lines")
    case False
    then show ?thesis by (simp add: group_from.simps [of U lines i])
  next
    case True
    obtain c i' where s: "segment_step U lines i = (c, i')"
      by (cases "segment_step U lines i") blast
    from "1.IH" [OF True s [symmetric]]
    have ih: "\<forall>c\<in>set (group_from U lines i').
      c_blocks c \<noteq> [] \<and> (c_qnum c = None \<longrightarrow> 10 < length (chunk_text U (c_blocks c)))" .
    show ?thesis
    proof (cases c)
      case None
      with ih group_from_step [OF True s] show ?thesis by simp
    next
      case (Some x)
      with segment_step_emits [OF True] s
      have "c_blocks x \<noteq> [] \<and> (c_qnum x = None \<longrightarrow> 10 < length (chunk_text U (c_blocks x)))"
        by simp
      with ih Some group_from_step [OF True s] show ?thesis by simp
    qed
  qed
qed

text \<open>
  Claim C6. Every candidate that the segmenter emits has at least one block, and the
  joined and trimmed block text of every unnumbered one is longer than 10 characters.
  When the chunk collected at an unnumbered line is not longer than that, the pass emits
  nothing and the scan resumes at the next line.
\<close>

theorem unnumbered_minimum_length:
  "(\<forall>c\<in>set (group_lines_to_candidates U lines).
      c_blocks c \<noteq> [] \<and> (c_qnum c = None \<longrightarrow> 10 < length (chunk_text U (c_blocks c)))) \<and>
   (\<forall>i. i < length lines \<and> \<not> is_numbered U (lines ! i) \<and>
        \<not> 10 < length (chunk_text U (fst (chunk_scan U lines i i []))) \<longrightarrow>
        segment_step U lines i = (None, i + 1) \<and>
        group_from U lines i = group_from U lines (i + 1))"
proof (intro conjI allI impI)
  show "\<forall>c\<in>set (group_lines_to_candidates U lines).
      c_blocks c \<noteq> [] \<and> (c_qnum c = None \<longrightarrow> 10 < length (chunk_text U (c_blocks c)))"
    unfolding group_lines_to_candidates_def by (rule group_from_emits)
next
  fix i
  assume a: "i < length lines \<and> \<not> is_numbered U (lines ! i) \<and>
        \<not> 10 < length (chunk_text U (fst (chunk_scan U lines i i [])))"
  obtain blocks j where cs: "chunk_scan U lines i i [] = (blocks, j)"
    by (cases "chunk_scan U lines i i []") blast
  with a have "\<not> 10 < length (chunk_text U blocks)"
    by simp
  with a cs show s: "segment_step U lines i = (None, i + 1)"
    by (simp add: segment_step_unnumbered)
  from a group_from_step [OF _ s] show "group_from U lines i = group_from U lines (i + 1)"
    by simp
qed

theorem unnumbered_minimum_length_witness:
  "(\<exists>c. group_lines_to_candidates deva_tables
           [sample_line ''ab'' 0 10, sample_line ''this is a long line'' 20 30] = [c] \<and>
        c_qnum c = None \<and> c_blocks c \<noteq> [] \<and>
        10 < length (chunk_text deva_tables (c_blocks c))) \<and>
   0 < length [sample_line ''a'' 0 10, sample_line ''b'' 100 110, sample_line ''c'' 200 210] \<and>
   \<not> is_numbered deva_tables
       ([sample_line ''a'' 0 10, sample_line ''b'' 100 110, sample_line ''c'' 200 210] ! 0) \<and>
   \<not> 10 < length (chunk_text deva_tables
                  (fst (chunk_scan deva_tables
                     [sample_line ''a'' 0 10, sample_line ''b'' 100 110, sample_line ''c'' 200 210]
                     0 0 []))) \<and>
   segment_step deva_tables
     [sample_line ''a'' 0 10, sample_line ''b'' 100 110, sample_line ''c'' 200 210] 0 = (None, 1) \<and>
   group_from deva_tables
     [sample_line ''a'' 0 10, sample_line ''b'' 100 110, sample_line ''c'' 200 210] 0
     = group_from deva_tables
         [sample_line ''a'' 0 10, sample_line ''b'' 100 110, sample_line ''c'' 200 210] 1"
proof -
  let ?L1 = "[sample_line ''a'' 0 10, sample_line ''b'' 100 110, sample_line ''c'' 200 210]"
  let ?L2 = "[sample_line ''ab'' 0 10, sample_line ''this is a long line'' 20 30]"
  have n: "map c_qnum (group_lines_to_candidates deva_tables ?L2) = [None]"
    by code_simp
  then obtain c where c: "group_lines_to_candidates deva_tables ?L2 = [c]" "c_qnum c = None"
    by auto
  from unnumbered_minimum_length [of deva_tables ?L2] c
  have "c_blocks c \<noteq> [] \<and> 10 < length (chunk_text deva_tables (c_blocks c))"
    by simp
  with c have a: "\<exists>c. group_lines_to_candidates deva_tables ?L2 = [c] \<and>
        c_qnum c = None \<and> c_blocks c \<noteq> [] \<and>
        10 < length (chunk_text deva_tables (c_blocks c))"
    by blast
  have h: "0 < length ?L1 \<and> \<not> is_numbered deva_tables (?L1 ! 0) \<and>
        \<not> 10 < length (chunk_text deva_tables (fst (chunk_scan deva_tables ?L1 0 0 [])))"
    by code_simp
  from unnumbered_minimum_length [of deva_tables ?L1] h
  have "segment_step deva_tables ?L1 0 = (None, 0 + 1) \<and>
        group_from deva_tables ?L1 0 = group_from deva_tables ?L1 (0 + 1)"
    by blast
  with a h show ?thesis
    by simp
qed

end
